theory Spec2Isabelle
  imports Complex_Main "HOL-Library.Char_ord" "HOL-Library.List_Lexorder"
begin

section \<open>Data model\<close>

text \<open>
  The clinic's mock store of \<^verbatim>\<open>services/api.ts\<close> and the types of \<^verbatim>\<open>types.ts\<close>.
  A JavaScript number that only ever holds a caseload or an identifier is an \<open>int\<close>;
  the average load and the costs, which the source computes in double precision from
  such numbers, are exact rationals. A string is the list of bytes that encodes it. The priority, a string
  in the engine's signature, only ever receives a value of the type \<^verbatim>\<open>Priority\<close>. Fields that no assignment decision reads
  (names of patients, timestamps, transcripts, the triage summary's free text) are
  left out of the visit record. Two interfaces of the source both have fields
  \<^verbatim>\<open>id\<close> and \<^verbatim>\<open>status\<close>; the record fields carry a prefix to keep them apart.
\<close>

datatype DoctorStatus = active | break | offline

datatype Priority = Normal | Priority | Emergency

record Doctor =
  doc_id :: string
  name :: string
  specialty :: string
  currentLoad :: int
  status :: DoctorStatus

record MockPatient =
  pat_id :: int
  pat_name :: string

record Visit =
  visit_id :: int
  patient_id :: int
  visit_status :: string
  priority :: Priority
  assigned_doctor_id :: "string option"
  ai_assigned_specialty :: "string option"
  diagnosis :: bool

record Store =
  doctors :: "Doctor list"
  patients :: "MockPatient list"
  visits :: "Visit list"
  nextPatientId :: int
  nextVisitId :: int

datatype error = PatientNotFound | VisitNotFound

text \<open>The value of \<^verbatim>\<open>minCost\<close>: a finite cost, or JavaScript's \<^verbatim>\<open>Infinity\<close>.\<close>

datatype cost = Finite rat | Infinity

fun lessCost :: "rat \<Rightarrow> cost \<Rightarrow> bool" where
  "lessCost c Infinity = True"
| "lessCost c (Finite m) = (c < m)"

section \<open>The assignment engine\<close>

definition MISMATCH_PENALTY :: rat where
  "MISMATCH_PENALTY = 10000"

definition LOAD_PENALTY_WEIGHT :: rat where
  "LOAD_PENALTY_WEIGHT = 300"

definition AVG_SERVICE_TIME :: rat where
  "AVG_SERVICE_TIME = 900"

text \<open>
  The arrays built by \<^verbatim>\<open>filter\<close> hold references to the doctor objects of the
  module-level array \<^verbatim>\<open>doctors\<close>, and the caller mutates the object that
  \<^verbatim>\<open>findBestDoctor\<close> returns. A reference is modelled as the object's position in
  \<^verbatim>\<open>doctors\<close>; a field is read through \<open>ds ! i\<close>, always within range here.
\<close>

definition activeDoctors :: "Doctor list \<Rightarrow> nat list" where
  "activeDoctors ds = filter (\<lambda>i. status (ds ! i) = active) [0..<length ds]"

definition avgLoad :: "Doctor list \<Rightarrow> nat list \<Rightarrow> rat" where
  "avgLoad ds act =
     of_int (foldl (\<lambda>acc d. acc + currentLoad (ds ! d)) 0 act) / of_nat (length act)"

definition lessBusy :: "Doctor list \<Rightarrow> nat list \<Rightarrow> nat list" where
  "lessBusy ds act =
     filter (\<lambda>d. of_int (currentLoad (ds ! d)) \<le> avgLoad ds act) act"

definition candidates :: "Doctor list \<Rightarrow> nat list \<Rightarrow> nat list" where
  "candidates ds act = (if length (lessBusy ds act) > 0 then lessBusy ds act else act)"

definition estimatedWait :: "Doctor list \<Rightarrow> nat \<Rightarrow> rat" where
  "estimatedWait ds doc = of_int (currentLoad (ds ! doc)) * AVG_SERVICE_TIME"

definition loadPenalty :: "Doctor list \<Rightarrow> rat \<Rightarrow> nat \<Rightarrow> rat" where
  "loadPenalty ds avg doc =
     max 0 (of_int (currentLoad (ds ! doc)) - avg) * LOAD_PENALTY_WEIGHT"

text \<open>
  \<^verbatim>\<open>Array.prototype.sort\<close> is stable, as is \<open>sort_key\<close>; element 0 of an empty
  array would be \<^verbatim>\<open>undefined\<close>, which the caller treats as no doctor.
\<close>

definition firstOf :: "nat list \<Rightarrow> nat option" where
  "firstOf xs = (case xs of [] \<Rightarrow> None | x # _ \<Rightarrow> Some x)"

subsection \<open>The engine over the runtime's lowering of strings\<close>

text \<open>
  The engine compares specialties through \<^verbatim>\<open>String.prototype.toLowerCase\<close>, a
  function of the JavaScript runtime that lowers every cased letter of Unicode. It is
  the parameter \<open>lower\<close> of the definitions below, which say nothing about what it does
  to a string: \<^verbatim>\<open>doc.specialty.toLowerCase() === targetSpecialty.toLowerCase()\<close> is
  \<open>lower (specialty (ds ! doc)) = lower targetSpecialty\<close>.
\<close>

definition isMatch_by :: "(string \<Rightarrow> string) \<Rightarrow> Doctor list \<Rightarrow> string \<Rightarrow> nat \<Rightarrow> bool" where
  "isMatch_by lower ds targetSpecialty doc =
     (lower (specialty (ds ! doc)) = lower targetSpecialty)"

text \<open>One turn of the emergency loop over the candidates.\<close>

definition emergencyStep_by ::
  "(string \<Rightarrow> string) \<Rightarrow> Doctor list \<Rightarrow> string \<Rightarrow> nat option \<Rightarrow> nat \<Rightarrow> nat option" where
  "emergencyStep_by lower ds targetSpecialty bestMatch doc =
     (if isMatch_by lower ds targetSpecialty doc
      then (case bestMatch of
              None \<Rightarrow> Some doc
            | Some b \<Rightarrow> if currentLoad (ds ! doc) < currentLoad (ds ! b) then Some doc else Some b)
      else bestMatch)"

definition mismatchCost_by :: "(string \<Rightarrow> string) \<Rightarrow> Doctor list \<Rightarrow> string \<Rightarrow> nat \<Rightarrow> rat" where
  "mismatchCost_by lower ds targetSpecialty doc =
     (if isMatch_by lower ds targetSpecialty doc then 0 else MISMATCH_PENALTY)"

definition totalCost_by ::
  "(string \<Rightarrow> string) \<Rightarrow> Doctor list \<Rightarrow> string \<Rightarrow> rat \<Rightarrow> nat \<Rightarrow> rat" where
  "totalCost_by lower ds targetSpecialty avg doc =
     mismatchCost_by lower ds targetSpecialty doc + estimatedWait ds doc + loadPenalty ds avg doc"

text \<open>One turn of the standard loop: the state is \<^verbatim>\<open>(bestDoctor, minCost)\<close>.\<close>

definition costStep_by ::
  "(string \<Rightarrow> string) \<Rightarrow> Doctor list \<Rightarrow> string \<Rightarrow> rat \<Rightarrow> nat option \<times> cost \<Rightarrow> nat
     \<Rightarrow> nat option \<times> cost" where
  "costStep_by lower ds targetSpecialty avg st doc =
     (if lessCost (totalCost_by lower ds targetSpecialty avg doc) (snd st)
      then (Some doc, Finite (totalCost_by lower ds targetSpecialty avg doc))
      else st)"

definition findBestDoctor_by ::
  "(string \<Rightarrow> string) \<Rightarrow> Doctor list \<Rightarrow> string \<Rightarrow> Priority \<Rightarrow> nat option" where
  "findBestDoctor_by lower ds targetSpecialty prio =
     (let act = activeDoctors ds in
      if length act = 0 then None
      else if prio = Emergency then
        (case foldl (emergencyStep_by lower ds targetSpecialty) None (candidates ds act) of
           Some b \<Rightarrow> Some b
         | None \<Rightarrow> firstOf (sort_key (\<lambda>d. currentLoad (ds ! d)) (candidates ds act)))
      else
        (case fst (foldl (costStep_by lower ds targetSpecialty (avgLoad ds act))
                     (None, Infinity) act) of
           Some b \<Rightarrow> Some b
         | None \<Rightarrow> firstOf act))"

subsection \<open>The engine on strings of ASCII characters\<close>

text \<open>
  On a string of ASCII characters \<^verbatim>\<open>String.prototype.toLowerCase\<close> sets bit 5 of
  each capital letter A to Z and changes nothing else. \<open>toLowerCase_ascii\<close> is that
  function; it is not the runtime's lowering on other strings. The store below runs the
  engine with it, and every roster and requirement that this file evaluates is ASCII.
\<close>

definition lowerChar :: "char \<Rightarrow> char" where
  "lowerChar c =
     (if CHR ''A'' \<le> c \<and> c \<le> CHR ''Z''
      then (case c of Char b0 b1 b2 b3 b4 b5 b6 b7 \<Rightarrow> Char b0 b1 b2 b3 b4 True b6 b7)
      else c)"

definition toLowerCase_ascii :: "string \<Rightarrow> string" where
  "toLowerCase_ascii s = map lowerChar s"

definition mismatchCost :: "Doctor list \<Rightarrow> string \<Rightarrow> nat \<Rightarrow> rat" where
  "mismatchCost ds targetSpecialty doc = mismatchCost_by toLowerCase_ascii ds targetSpecialty doc"

definition totalCost :: "Doctor list \<Rightarrow> string \<Rightarrow> rat \<Rightarrow> nat \<Rightarrow> rat" where
  "totalCost ds targetSpecialty avg doc = totalCost_by toLowerCase_ascii ds targetSpecialty avg doc"

definition findBestDoctor :: "Doctor list \<Rightarrow> string \<Rightarrow> Priority \<Rightarrow> nat option" where
  "findBestDoctor ds targetSpecialty prio = findBestDoctor_by toLowerCase_ascii ds targetSpecialty prio"

section \<open>The store and its operations\<close>

definition initial_doctors :: "Doctor list" where
  "initial_doctors =
     [\<lparr>doc_id = ''d_1'', name = ''Dr. A. House'', specialty = ''Internal Medicine'',
        currentLoad = 0, status = active\<rparr>,
      \<lparr>doc_id = ''d_2'', name = ''Dr. M. Grey'', specialty = ''General Surgery'',
        currentLoad = 0, status = active\<rparr>,
      \<lparr>doc_id = ''d_3'', name = ''Dr. S. Strange'', specialty = ''Neurology'',
        currentLoad = 0, status = active\<rparr>,
      \<lparr>doc_id = ''d_4'', name = ''Dr. J. Dorian'', specialty = ''Internal Medicine'',
        currentLoad = 0, status = active\<rparr>,
      \<lparr>doc_id = ''d_5'', name = ''Dr. D. Shepherd'', specialty = ''Neurosurgery'',
        currentLoad = 0, status = break\<rparr>,
      \<lparr>doc_id = ''d_6'', name = ''Dr. L. Cuddy'', specialty = ''Endocrinology'',
        currentLoad = 0, status = active\<rparr>]"

definition initial_store :: Store where
  "initial_store =
     \<lparr>doctors = initial_doctors, patients = [], visits = [],
      nextPatientId = 101, nextVisitId = 1\<rparr>"

text \<open>\<^verbatim>\<open>Array.prototype.find\<close>, returning the position of the object found.\<close>

fun findIndex :: "('a \<Rightarrow> bool) \<Rightarrow> 'a list \<Rightarrow> nat option" where
  "findIndex P [] = None"
| "findIndex P (x # xs) = (if P x then Some 0 else map_option Suc (findIndex P xs))"

text \<open>
  \<^verbatim>\<open>addDoctor\<close> builds the id as \<^verbatim>\<open>d_\<close> followed by the decimal form of
  \<^verbatim>\<open>doctors.length + 1 + Math.random()\<close>; the string it builds is the parameter
  \<open>newId\<close>.
\<close>

definition addDoctor :: "Store \<Rightarrow> string \<Rightarrow> string \<Rightarrow> string \<Rightarrow> DoctorStatus \<Rightarrow> Store" where
  "addDoctor s newId nm spec st =
     s\<lparr>doctors := doctors s @
          [\<lparr>doc_id = newId, name = nm, specialty = spec, currentLoad = 0, status = st\<rparr>]\<rparr>"

definition updateDoctorStatus :: "Store \<Rightarrow> string \<Rightarrow> DoctorStatus \<Rightarrow> Store" where
  "updateDoctorStatus s doctorId st =
     (case findIndex (\<lambda>d. doc_id d = doctorId) (doctors s) of
        None \<Rightarrow> s
      | Some i \<Rightarrow> s\<lparr>doctors := (doctors s)[i := (doctors s ! i)\<lparr>status := st\<rparr>]\<rparr>)"

definition createPatient :: "Store \<Rightarrow> string \<Rightarrow> Store" where
  "createPatient s nm =
     s\<lparr>patients := patients s @ [\<lparr>pat_id = nextPatientId s, pat_name = nm\<rparr>],
       nextPatientId := nextPatientId s + 1\<rparr>"

definition beginVisit :: "Store \<Rightarrow> int \<Rightarrow> error + Store" where
  "beginVisit s patientId =
     (case findIndex (\<lambda>p. pat_id p = patientId) (patients s) of
        None \<Rightarrow> Inl PatientNotFound
      | Some _ \<Rightarrow>
          Inr (s\<lparr>visits := visits s @
                    [\<lparr>visit_id = nextVisitId s, patient_id = patientId,
                      visit_status = ''triage'', priority = Normal,
                      assigned_doctor_id = None, ai_assigned_specialty = None,
                      diagnosis = False\<rparr>],
                 nextVisitId := nextVisitId s + 1\<rparr>))"

text \<open>
  \<^verbatim>\<open>finalizeTriage\<close>: \<open>prio\<close> is \<^verbatim>\<open>summary.priority\<close>; \<open>preCalculatedSpecialty\<close> is
  the optional argument, used when it is truthy (present and not the empty string);
  \<open>aiSpecialty\<close> is the specialty that the external classifier
  \<^verbatim>\<open>determineMedicalSpecialty\<close> answers otherwise. Every mutation of the store
  happens after that call has returned.
\<close>

definition routedSpecialty :: "string option \<Rightarrow> string \<Rightarrow> string" where
  "routedSpecialty preCalculatedSpecialty aiSpecialty =
     (case preCalculatedSpecialty of
        None \<Rightarrow> aiSpecialty
      | Some p \<Rightarrow> if p = [] then aiSpecialty else p)"

definition finalizeTriage ::
  "Store \<Rightarrow> int \<Rightarrow> Priority \<Rightarrow> string option \<Rightarrow> string \<Rightarrow> error + Store" where
  "finalizeTriage s visitId prio preCalculatedSpecialty aiSpecialty =
     (case findIndex (\<lambda>v. visit_id v = visitId) (visits s) of
        None \<Rightarrow> Inl VisitNotFound
      | Some vi \<Rightarrow>
          (let spec = routedSpecialty preCalculatedSpecialty aiSpecialty;
               visit = (visits s ! vi)\<lparr>visit_status := ''waiting'', priority := prio,
                          ai_assigned_specialty := Some spec\<rparr>
           in case findBestDoctor (doctors s) spec prio of
                Some di \<Rightarrow>
                  Inr (s\<lparr>doctors := (doctors s)[di := (doctors s ! di)
                                       \<lparr>currentLoad := currentLoad (doctors s ! di) + 1\<rparr>],
                         visits := (visits s)[vi := visit
                                       \<lparr>assigned_doctor_id := Some (doc_id (doctors s ! di))\<rparr>]\<rparr>)
              | None \<Rightarrow> Inr (s\<lparr>visits := (visits s)[vi := visit]\<rparr>)))"

text \<open>
  \<^verbatim>\<open>updateVisitStatus\<close>: \<open>updates\<close> is the effect of
  \<^verbatim>\<open>Object.assign(visit, updates)\<close> on the visit object.
\<close>

definition updateVisitStatus ::
  "Store \<Rightarrow> int \<Rightarrow> string \<Rightarrow> (Visit \<Rightarrow> Visit) \<Rightarrow> error + Store" where
  "updateVisitStatus s visitId st updates =
     (case findIndex (\<lambda>v. visit_id v = visitId) (visits s) of
        None \<Rightarrow> Inl VisitNotFound
      | Some vi \<Rightarrow>
          Inr (s\<lparr>visits := (visits s)[vi := updates ((visits s ! vi)\<lparr>visit_status := st\<rparr>)]\<rparr>))"

text \<open>
  \<^verbatim>\<open>submitDiagnosis\<close>: the test \<^verbatim>\<open>if (visit.assigned_doctor_id)\<close> is false for a
  missing id and for the empty string.
\<close>

definition decrementLoad :: "Doctor list \<Rightarrow> string option \<Rightarrow> Doctor list" where
  "decrementLoad ds assigned =
     (case assigned of
        None \<Rightarrow> ds
      | Some did \<Rightarrow>
          if did = [] then ds
          else (case findIndex (\<lambda>d. doc_id d = did) ds of
                  None \<Rightarrow> ds
                | Some di \<Rightarrow> ds[di := (ds ! di)\<lparr>currentLoad := max 0 (currentLoad (ds ! di) - 1)\<rparr>]))"

definition submitDiagnosis :: "Store \<Rightarrow> int \<Rightarrow> error + Store" where
  "submitDiagnosis s visitId =
     (case findIndex (\<lambda>v. visit_id v = visitId) (visits s) of
        None \<Rightarrow> Inl VisitNotFound
      | Some vi \<Rightarrow>
          Inr (s\<lparr>visits := (visits s)[vi := (visits s ! vi)
                               \<lparr>diagnosis := True, visit_status := ''seen''\<rparr>],
                 doctors := decrementLoad (doctors s) (assigned_doctor_id (visits s ! vi))\<rparr>))"

subsection \<open>Sequences of operations\<close>

text \<open>
  A call of an exported function of the store. A call that throws leaves the store
  as it was: each function throws before its first mutation.
  \<^verbatim>\<open>updateVisitStatus\<close> is called with its default \<^verbatim>\<open>updates = {}\<close>.
\<close>

datatype event =
    AddDoctor string string string DoctorStatus
  | UpdateDoctorStatus string DoctorStatus
  | CreatePatient string
  | BeginVisit int
  | FinalizeTriage int Priority "string option" string
  | UpdateVisitStatus int string
  | SubmitDiagnosis int

definition orElse :: "error + Store \<Rightarrow> Store \<Rightarrow> Store" where
  "orElse r s = (case r of Inl _ \<Rightarrow> s | Inr s' \<Rightarrow> s')"

fun apply_event :: "Store \<Rightarrow> event \<Rightarrow> Store" where
  "apply_event s (AddDoctor newId nm spec st) = addDoctor s newId nm spec st"
| "apply_event s (UpdateDoctorStatus doctorId st) = updateDoctorStatus s doctorId st"
| "apply_event s (CreatePatient nm) = createPatient s nm"
| "apply_event s (BeginVisit patientId) = orElse (beginVisit s patientId) s"
| "apply_event s (FinalizeTriage visitId prio pre ai) =
     orElse (finalizeTriage s visitId prio pre ai) s"
| "apply_event s (UpdateVisitStatus visitId st) =
     orElse (updateVisitStatus s visitId st (\<lambda>v. v)) s"
| "apply_event s (SubmitDiagnosis visitId) = orElse (submitDiagnosis s visitId) s"

definition run :: "Store \<Rightarrow> event list \<Rightarrow> Store" where
  "run s evs = foldl apply_event s evs"

subsection \<open>Sequences that respect the visit lifecycle\<close>

text \<open>
  The store's functions check no lifecycle state themselves. \<open>lifecycle_ok\<close> is the
  discipline of a caller: a visit gets a clinician only while it has none, it is
  completed only once, \<^verbatim>\<open>updateVisitStatus\<close> neither completes a visit nor reopens a
  completed one, and a new doctor's id is fresh and not empty.
\<close>

definition visitById :: "Store \<Rightarrow> int \<Rightarrow> Visit option" where
  "visitById s visitId =
     map_option (\<lambda>vi. visits s ! vi) (findIndex (\<lambda>v. visit_id v = visitId) (visits s))"

fun lifecycle_ok :: "Store \<Rightarrow> event \<Rightarrow> bool" where
  "lifecycle_ok s (AddDoctor newId nm spec st) =
     (newId \<noteq> [] \<and> newId \<notin> set (map doc_id (doctors s)))"
| "lifecycle_ok s (FinalizeTriage visitId prio pre ai) =
     (case visitById s visitId of None \<Rightarrow> True | Some v \<Rightarrow> assigned_doctor_id v = None)"
| "lifecycle_ok s (UpdateVisitStatus visitId st) =
     (st \<noteq> ''seen'' \<and>
      (case visitById s visitId of None \<Rightarrow> True | Some v \<Rightarrow> visit_status v \<noteq> ''seen''))"
| "lifecycle_ok s (SubmitDiagnosis visitId) =
     (case visitById s visitId of None \<Rightarrow> True | Some v \<Rightarrow> visit_status v \<noteq> ''seen'')"
| "lifecycle_ok s _ = True"

fun valid_run :: "Store \<Rightarrow> event list \<Rightarrow> bool" where
  "valid_run s [] = True"
| "valid_run s (e # es) = (lifecycle_ok s e \<and> valid_run (apply_event s e) es)"

text \<open>A visit that holds a clinician: assigned and not yet completed.\<close>

definition openAssigned :: "Visit \<Rightarrow> bool" where
  "openAssigned v = (assigned_doctor_id v \<noteq> None \<and> visit_status v \<noteq> ''seen'')"

definition totalLoad :: "Store \<Rightarrow> int" where
  "totalLoad s = sum_list (map currentLoad (doctors s))"

definition openAssignedCount :: "Store \<Rightarrow> int" where
  "openAssignedCount s = int (length (filter openAssigned (visits s)))"

text \<open>A roster at the start of a day: ids distinct and not empty, nobody loaded.\<close>

definition empty_clinic :: "Store \<Rightarrow> bool" where
  "empty_clinic s =
     (distinct (map doc_id (doctors s)) \<and> [] \<notin> set (map doc_id (doctors s)) \<and>
      list_all (\<lambda>d. currentLoad d = 0) (doctors s) \<and> visits s = [])"


text \<open>The seeded store once every active doctor has gone offline and a patient waits in triage.\<close>

definition closed_store :: Store where
  "closed_store =
     run initial_store
       [UpdateDoctorStatus ''d_1'' offline, UpdateDoctorStatus ''d_2'' offline,
        UpdateDoctorStatus ''d_3'' break, UpdateDoctorStatus ''d_4'' offline,
        UpdateDoctorStatus ''d_6'' offline, CreatePatient ''Ethan Hunt'', BeginVisit 101]"

text \<open>The seeded store after one Internal Medicine patient has been assigned.\<close>

definition busy_store :: Store where
  "busy_store =
     run initial_store
       [CreatePatient ''John Wick'', BeginVisit 101,
        FinalizeTriage 1 Normal (Some ''Internal Medicine'') []]"

subsection \<open>Caseloads\<close>

text \<open>
  A visit is held by the doctor with id \<open>did\<close> when it is assigned to that id and not
  yet completed. A store is consistent when its doctors' ids are distinct and not
  empty, every assigned id is the id of a doctor, and every doctor's load is the number
  of visits the doctor holds.
\<close>

definition heldBy :: "string \<Rightarrow> Visit \<Rightarrow> bool" where
  "heldBy did v = (assigned_doctor_id v = Some did \<and> visit_status v \<noteq> ''seen'')"

definition caseload :: "Store \<Rightarrow> string \<Rightarrow> int" where
  "caseload s did = int (length (filter (heldBy did) (visits s)))"

definition consistent :: "Store \<Rightarrow> bool" where
  "consistent s =
     (distinct (map doc_id (doctors s)) \<and> [] \<notin> set (map doc_id (doctors s)) \<and>
      list_all (\<lambda>v. case assigned_doctor_id v of
                       None \<Rightarrow> True
                     | Some x \<Rightarrow> x \<in> set (map doc_id (doctors s))) (visits s) \<and>
      list_all (\<lambda>d. currentLoad d = caseload s (doc_id d)) (doctors s))"

text \<open>Two Neurology patients, assigned one after the other.\<close>

definition two_waiting :: "event list" where
  "two_waiting =
     [CreatePatient ''Sarah Connor'', BeginVisit 101,
      CreatePatient ''Bruce Wayne'', BeginVisit 102,
      FinalizeTriage 1 Normal (Some ''Neurology'') [],
      FinalizeTriage 2 Normal (Some ''Neurology'') []]"

text \<open>The first of them is called in and discharged.\<close>

definition one_completed :: "event list" where
  "one_completed = two_waiting @ [UpdateVisitStatus 1 ''in_cabin'', SubmitDiagnosis 1]"

text \<open>Triage is finalised a second time for the first visit.\<close>

definition assigned_twice :: "event list" where
  "assigned_twice = two_waiting @ [FinalizeTriage 1 Normal (Some ''Neurology'') []]"

text \<open>The diagnosis of the first visit is submitted twice.\<close>

definition completed_twice :: "event list" where
  "completed_twice = two_waiting @ [SubmitDiagnosis 1, SubmitDiagnosis 1]"

section \<open>Properties of the loops of the engine\<close>

lemma activeDoctors_iff:
  "i \<in> set (activeDoctors ds) \<longleftrightarrow> i < length ds \<and> status (ds ! i) = active"
  by (auto simp: activeDoctors_def)

lemma activeDoctors_sorted: "sorted (activeDoctors ds)"
  by (simp add: activeDoctors_def sorted_wrt_filter)

lemma activeDoctors_distinct: "distinct (activeDoctors ds)"
  by (simp add: activeDoctors_def)

lemma foldl_load_sum:
  "foldl (\<lambda>acc d. acc + f d) (a::int) xs = a + sum_list (map f xs)"
  by (induction xs arbitrary: a) (simp_all add: ac_simps)

lemma avgLoad_times_length:
  assumes "act \<noteq> []"
  shows "avgLoad ds act * of_nat (length act) =
         of_int (sum_list (map (\<lambda>d. currentLoad (ds ! d)) act))"
  using assms by (simp add: avgLoad_def foldl_load_sum)

lemma all_above_sum:
  fixes a :: rat
  assumes "xs \<noteq> []" and "\<forall>x\<in>set xs. a < of_int (f x)"
  shows "a * of_nat (length xs) < of_int (sum_list (map f xs))"
  using assms
proof (induction xs)
  case Nil
  then show ?case by simp
next
  case (Cons x xs)
  show ?case
  proof (cases "xs = []")
    case True
    with Cons.prems show ?thesis by simp
  next
    case False
    with Cons have "a * of_nat (length xs) < of_int (sum_list (map f xs))" by simp
    moreover from Cons.prems have "a < of_int (f x)" by simp
    ultimately show ?thesis by (simp add: algebra_simps)
  qed
qed

lemma lessBusy_nonempty:
  assumes "act \<noteq> []"
  shows "lessBusy ds act \<noteq> []"
proof
  assume "lessBusy ds act = []"
  then have "\<forall>d\<in>set act. avgLoad ds act < of_int (currentLoad (ds ! d))"
    by (auto simp: lessBusy_def filter_empty_conv)
  from all_above_sum[OF assms this] avgLoad_times_length[OF assms, of ds]
  show False by simp
qed

lemma candidates_subset: "set (candidates ds act) \<subseteq> set act"
  by (auto simp: candidates_def lessBusy_def)

lemma candidates_nonempty: "act \<noteq> [] \<Longrightarrow> candidates ds act \<noteq> []"
  by (simp add: candidates_def)

lemma emergency_loop_None:
  "foldl (emergencyStep_by lower ds t) b xs = None \<longleftrightarrow> b = None \<and> (\<forall>x\<in>set xs. \<not> isMatch_by lower ds t x)"
  by (induction xs arbitrary: b) (auto simp: emergencyStep_by_def split: option.splits)

lemma emergency_loop_Some:
  "foldl (emergencyStep_by lower ds t) b xs = Some r \<Longrightarrow>
     (b = Some r \<or> (r \<in> set xs \<and> isMatch_by lower ds t r)) \<and>
     (\<forall>x\<in>set xs. isMatch_by lower ds t x \<longrightarrow> currentLoad (ds ! r) \<le> currentLoad (ds ! x)) \<and>
     (\<forall>b'. b = Some b' \<longrightarrow> currentLoad (ds ! r) \<le> currentLoad (ds ! b'))"
proof (induction xs arbitrary: b)
  case Nil
  then show ?case by simp
next
  case (Cons x xs)
  from Cons.prems have "foldl (emergencyStep_by lower ds t) (emergencyStep_by lower ds t b x) xs = Some r" by simp
  from Cons.IH[OF this] show ?case
    by (auto simp: emergencyStep_by_def split: if_splits option.splits)
qed

lemma firstOf_None: "firstOf xs = None \<longleftrightarrow> xs = []"
  by (simp add: firstOf_def split: list.splits)

lemma firstOf_Some: "firstOf xs = Some r \<Longrightarrow> r \<in> set xs"
  by (auto simp: firstOf_def split: list.splits)

lemma firstOf_sort_key:
  assumes "firstOf (sort_key f xs) = Some r"
  shows "r \<in> set xs \<and> (\<forall>x\<in>set xs. f r \<le> f x)"
proof -
  from assms obtain ys where ys: "sort_key f xs = r # ys"
    by (auto simp: firstOf_def split: list.splits)
  have "sorted (map f (sort_key f xs))" by (rule sorted_sort_key)
  with ys have "\<forall>y\<in>set ys. f r \<le> f y" by simp
  moreover have "set (r # ys) = set xs" using ys set_sort[of f xs] by simp
  ultimately show ?thesis by auto
qed

lemma firstOf_sort_key_None: "firstOf (sort_key f xs) = None \<longleftrightarrow> xs = []"
proof -
  have "sort_key f xs = [] \<longleftrightarrow> xs = []"
    using length_sort[of f xs] by (metis length_0_conv)
  then show ?thesis by (simp add: firstOf_None)
qed

lemma costStep_first:
  "costStep_by lower ds t avg (None, Infinity) x = (Some x, Finite (totalCost_by lower ds t avg x))"
  by (simp add: costStep_by_def)

lemma costStep_next:
  "costStep_by lower ds t avg (Some r, Finite c) x =
     (if totalCost_by lower ds t avg x < c then (Some x, Finite (totalCost_by lower ds t avg x))
      else (Some r, Finite c))"
  by (simp add: costStep_by_def)

lemma cost_loop:
  assumes "foldl (costStep_by lower ds t avg) (None, Infinity) xs = (b, m)"
  shows "(xs = [] \<and> b = None \<and> m = Infinity) \<or>
         (\<exists>r ys zs. b = Some r \<and> m = Finite (totalCost_by lower ds t avg r) \<and> xs = ys @ r # zs \<and>
            (\<forall>y\<in>set ys. totalCost_by lower ds t avg r < totalCost_by lower ds t avg y) \<and>
            (\<forall>z\<in>set zs. totalCost_by lower ds t avg r \<le> totalCost_by lower ds t avg z))"
  using assms
proof (induction xs arbitrary: b m rule: rev_induct)
  case Nil
  then show ?case by simp
next
  case (snoc x xs)
  let ?c = "totalCost_by lower ds t avg"
  obtain b0 m0 where st: "foldl (costStep_by lower ds t avg) (None, Infinity) xs = (b0, m0)"
    by (cases "foldl (costStep_by lower ds t avg) (None, Infinity) xs")
  with snoc.prems have step: "costStep_by lower ds t avg (b0, m0) x = (b, m)" by simp
  have "(xs = [] \<and> b0 = None \<and> m0 = Infinity) \<or>
         (\<exists>r ys zs. b0 = Some r \<and> m0 = Finite (?c r) \<and> xs = ys @ r # zs \<and>
            (\<forall>y\<in>set ys. ?c r < ?c y) \<and> (\<forall>z\<in>set zs. ?c r \<le> ?c z))"
    by (rule snoc.IH[OF st])
  then consider (empty) "xs = []" "b0 = None" "m0 = Infinity"
    | (found) r ys zs where "b0 = Some r" "m0 = Finite (?c r)" "xs = ys @ r # zs"
        "\<forall>y\<in>set ys. ?c r < ?c y" "\<forall>z\<in>set zs. ?c r \<le> ?c z"
    by blast
  then have "\<exists>r ys zs. b = Some r \<and> m = Finite (?c r) \<and> xs @ [x] = ys @ r # zs \<and>
            (\<forall>y\<in>set ys. ?c r < ?c y) \<and> (\<forall>z\<in>set zs. ?c r \<le> ?c z)"
  proof cases
    case empty
    with step have "b = Some x" "m = Finite (?c x)" by (simp_all add: costStep_first)
    with empty show ?thesis
      by (intro exI[of _ x] exI[of _ "[]"]) simp
  next
    case found
    show ?thesis
    proof (cases "?c x < ?c r")
      case True
      with step found have bm: "b = Some x" "m = Finite (?c x)"
        by (simp_all add: costStep_next)
      have "\<forall>y\<in>set xs. ?c x < ?c y"
      proof
        fix y assume "y \<in> set xs"
        with found(3) have "y \<in> set ys \<or> y = r \<or> y \<in> set zs" by auto
        with found(4,5) True show "?c x < ?c y" by (metis less_trans less_le_trans)
      qed
      with bm show ?thesis
        by (intro exI[of _ x] exI[of _ xs] exI[of _ "[]"]) simp
    next
      case False
      with step found have bm: "b = Some r" "m = Finite (?c r)"
        by (simp_all add: costStep_next)
      from False found(5) have "\<forall>z\<in>set (zs @ [x]). ?c r \<le> ?c z" by auto
      with bm found(3,4) show ?thesis
        by (intro exI[of _ r] exI[of _ ys] exI[of _ "zs @ [x]"]) simp
    qed
  qed
  then show ?case by blast
qed

text \<open>
  The standard branch on a non-empty active list: the doctor returned is the first
  one of the list whose cost is least.
\<close>

lemma standard_choice:
  assumes "act \<noteq> []" and "sorted act" and "distinct act"
  shows "\<exists>r. fst (foldl (costStep_by lower ds t avg) (None, Infinity) act) = Some r \<and> r \<in> set act \<and>
           (\<forall>d\<in>set act. totalCost_by lower ds t avg r \<le> totalCost_by lower ds t avg d) \<and>
           (\<forall>d\<in>set act. d < r \<longrightarrow> totalCost_by lower ds t avg r < totalCost_by lower ds t avg d)"
proof -
  let ?c = "totalCost_by lower ds t avg"
  obtain b m where bm: "foldl (costStep_by lower ds t avg) (None, Infinity) act = (b, m)"
    by (cases "foldl (costStep_by lower ds t avg) (None, Infinity) act")
  from cost_loop[OF bm] assms(1) obtain r ys zs where
    r: "b = Some r" "act = ys @ r # zs" "\<forall>y\<in>set ys. ?c r < ?c y" "\<forall>z\<in>set zs. ?c r \<le> ?c z"
    by blast
  have mem: "r \<in> set act" using r(2) by simp
  have least: "\<forall>d\<in>set act. ?c r \<le> ?c d"
  proof
    fix d assume "d \<in> set act"
    with r(2) have "d \<in> set ys \<or> d = r \<or> d \<in> set zs" by auto
    with r(3,4) show "?c r \<le> ?c d" by (metis less_imp_le order_refl)
  qed
  have first: "\<forall>d\<in>set act. d < r \<longrightarrow> ?c r < ?c d"
  proof (intro ballI impI)
    fix d assume d: "d \<in> set act" "d < r"
    from assms(2) r(2) have "\<forall>z\<in>set zs. r \<le> z"
      by (simp add: sorted_append)
    with d r(2) have "d \<in> set ys" by auto
    with r(3) show "?c r < ?c d" by simp
  qed
  from bm r(1) mem least first show ?thesis by simp
qed

lemma findBestDoctor_by_standard:
  assumes "prio \<noteq> Emergency" and "activeDoctors ds \<noteq> []"
  shows "findBestDoctor_by lower ds t prio =
         fst (foldl (costStep_by lower ds t (avgLoad ds (activeDoctors ds))) (None, Infinity)
                (activeDoctors ds))"
proof -
  from standard_choice[OF assms(2) activeDoctors_sorted activeDoctors_distinct]
  obtain r where "fst (foldl (costStep_by lower ds t (avgLoad ds (activeDoctors ds))) (None, Infinity)
                (activeDoctors ds)) = Some r" by blast
  with assms show ?thesis by (simp add: findBestDoctor_by_def Let_def)
qed

lemma findBestDoctor_by_None: "findBestDoctor_by lower ds t prio = None \<longleftrightarrow> activeDoctors ds = []"
proof (cases "activeDoctors ds = []")
  case True
  then show ?thesis by (simp add: findBestDoctor_by_def)
next
  case False
  show ?thesis
  proof (cases "prio = Emergency")
    case True
    from False have "candidates ds (activeDoctors ds) \<noteq> []" by (rule candidates_nonempty)
    then have "firstOf (sort_key (\<lambda>d. currentLoad (ds ! d)) (candidates ds (activeDoctors ds)))
                 \<noteq> None"
      by (simp only: firstOf_sort_key_None not_False_eq_True)
    with False True show ?thesis
      by (auto simp: findBestDoctor_by_def Let_def split: option.splits)
  next
    case prio: False
    from standard_choice[OF False activeDoctors_sorted activeDoctors_distinct]
    obtain r where "fst (foldl (costStep_by lower ds t (avgLoad ds (activeDoctors ds))) (None, Infinity)
                (activeDoctors ds)) = Some r" by blast
    with False prio show ?thesis by (simp add: findBestDoctor_by_standard)
  qed
qed

lemma findBestDoctor_by_Some:
  assumes "findBestDoctor_by lower ds t prio = Some r"
  shows "r \<in> set (activeDoctors ds)"
proof -
  from assms have ne: "activeDoctors ds \<noteq> []" using findBestDoctor_by_None[of lower ds t prio] by auto
  show ?thesis
  proof (cases "prio = Emergency")
    case True
    let ?cs = "candidates ds (activeDoctors ds)"
    show ?thesis
    proof (cases "foldl (emergencyStep_by lower ds t) None ?cs")
      case None
      with assms ne True have "firstOf (sort_key (\<lambda>d. currentLoad (ds ! d)) ?cs) = Some r"
        by (simp add: findBestDoctor_by_def Let_def)
      from firstOf_sort_key[OF this] candidates_subset show ?thesis by blast
    next
      case (Some b)
      with assms ne True have "b = r" by (simp add: findBestDoctor_by_def Let_def)
      with Some emergency_loop_Some[of lower ds t None ?cs r] candidates_subset show ?thesis by blast
    qed
  next
    case False
    from standard_choice[OF ne activeDoctors_sorted activeDoctors_distinct]
    obtain r' where "fst (foldl (costStep_by lower ds t (avgLoad ds (activeDoctors ds))) (None, Infinity)
                (activeDoctors ds)) = Some r'" "r' \<in> set (activeDoctors ds)" by blast
    with assms False ne show ?thesis by (simp add: findBestDoctor_by_standard)
  qed
qed

lemma findIndex_Some:
  "findIndex P xs = Some i \<Longrightarrow> i < length xs \<and> P (xs ! i) \<and> (\<forall>j<i. \<not> P (xs ! j))"
proof (induction xs arbitrary: i)
  case Nil
  then show ?case by simp
next
  case (Cons x xs)
  show ?case
  proof (cases "P x")
    case True
    with Cons.prems show ?thesis by simp
  next
    case False
    with Cons.prems obtain k where k: "findIndex P xs = Some k" "i = Suc k" by auto
    from Cons.IH[OF k(1)] False k(2) show ?thesis
      by (auto simp: less_Suc_eq_0_disj)
  qed
qed

lemma findIndex_None: "findIndex P xs = None \<longleftrightarrow> (\<forall>x\<in>set xs. \<not> P x)"
  by (induction xs) auto

text \<open>The standard branch, for any lowering: the first active doctor of least cost.\<close>

lemma standard_branch:
  assumes "prio \<noteq> Emergency" and "activeDoctors ds \<noteq> []"
  shows "\<exists>r. findBestDoctor_by lower ds t prio = Some r \<and> r \<in> set (activeDoctors ds) \<and>
           (\<forall>d\<in>set (activeDoctors ds).
               totalCost_by lower ds t (avgLoad ds (activeDoctors ds)) r
                 \<le> totalCost_by lower ds t (avgLoad ds (activeDoctors ds)) d) \<and>
           (\<forall>d\<in>set (activeDoctors ds). d < r \<longrightarrow>
               totalCost_by lower ds t (avgLoad ds (activeDoctors ds)) r
                 < totalCost_by lower ds t (avgLoad ds (activeDoctors ds)) d)"
  using standard_choice[OF assms(2) activeDoctors_sorted activeDoctors_distinct,
      of lower ds t "avgLoad ds (activeDoctors ds)"]
    findBestDoctor_by_standard[OF assms, of lower t]
  by simp

text \<open>The same facts for the engine on ASCII strings.\<close>

lemma findBestDoctor_None: "findBestDoctor ds t prio = None \<longleftrightarrow> activeDoctors ds = []"
  by (simp add: findBestDoctor_def findBestDoctor_by_None)

lemma findBestDoctor_Some: "findBestDoctor ds t prio = Some r \<Longrightarrow> r \<in> set (activeDoctors ds)"
  by (simp add: findBestDoctor_def findBestDoctor_by_Some)

lemma all_atleast_sum:
  fixes a :: rat
  assumes "\<forall>x\<in>set xs. a \<le> of_int (f x)"
  shows "a * of_nat (length xs) \<le> of_int (sum_list (map f xs))"
  using assms by (induction xs) (simp_all add: algebra_simps)

lemma least_le_avgLoad:
  assumes "m \<in> set act" and "\<forall>d\<in>set act. currentLoad (ds ! m) \<le> currentLoad (ds ! d)"
  shows "of_int (currentLoad (ds ! m)) \<le> avgLoad ds act"
proof -
  from assms(1) have ne: "act \<noteq> []" by auto
  then have pos: "(0::rat) < of_nat (length act)" by simp
  from assms(2) have "\<forall>d\<in>set act. (of_int (currentLoad (ds ! m)) :: rat) \<le> of_int (currentLoad (ds ! d))"
    by simp
  from all_atleast_sum[OF this] avgLoad_times_length[OF ne, of ds]
  have "of_int (currentLoad (ds ! m)) * of_nat (length act) \<le> avgLoad ds act * of_nat (length act)"
    by simp
  with pos show ?thesis by (simp only: mult_le_cancel_right_pos)
qed

section \<open>The claims\<close>

text \<open>
  C1. Whatever the roster, the required specialty and the priority, the single-patient
  assigner \<open>findBestDoctor\<close> either returns a doctor whose status is \<open>active\<close>, or
  returns nothing, which it does exactly when no doctor is active. When it returns a
  doctor, \<open>finalizeTriage\<close> records that active doctor's id on the visit; when no doctor
  is active, \<open>finalizeTriage\<close> leaves every doctor and the visit's assigned doctor as
  they were.
\<close>

theorem chosen_clinician_is_active:
  "(findBestDoctor ds t prio = None \<longleftrightarrow> activeDoctors ds = []) \<and>
   (\<forall>r. findBestDoctor ds t prio = Some r \<longrightarrow> r < length ds \<and> status (ds ! r) = active) \<and>
   (\<forall>vi r. findIndex (\<lambda>v. visit_id v = visitId) (visits s) = Some vi \<longrightarrow>
      findBestDoctor (doctors s) (routedSpecialty pre ai) prio = Some r \<longrightarrow>
      (\<exists>s'. finalizeTriage s visitId prio pre ai = Inr s' \<and>
            status (doctors s ! r) = active \<and>
            assigned_doctor_id (visits s' ! vi) = Some (doc_id (doctors s ! r)))) \<and>
   (\<forall>vi. findIndex (\<lambda>v. visit_id v = visitId) (visits s) = Some vi \<longrightarrow>
      activeDoctors (doctors s) = [] \<longrightarrow>
      (\<exists>s'. finalizeTriage s visitId prio pre ai = Inr s' \<and> doctors s' = doctors s \<and>
            assigned_doctor_id (visits s' ! vi) = assigned_doctor_id (visits s ! vi)))"
proof (intro conjI allI impI)
  show "findBestDoctor ds t prio = None \<longleftrightarrow> activeDoctors ds = []"
    by (rule findBestDoctor_None)
next
  fix r assume "findBestDoctor ds t prio = Some r"
  then have "r \<in> set (activeDoctors ds)" by (rule findBestDoctor_Some)
  then show "r < length ds" and "status (ds ! r) = active"
    by (simp_all add: activeDoctors_iff)
next
  fix vi r
  assume vi: "findIndex (\<lambda>v. visit_id v = visitId) (visits s) = Some vi"
    and r: "findBestDoctor (doctors s) (routedSpecialty pre ai) prio = Some r"
  from vi have len: "vi < length (visits s)" by (simp add: findIndex_Some)
  from r have "r \<in> set (activeDoctors (doctors s))" by (rule findBestDoctor_Some)
  then have act: "status (doctors s ! r) = active" by (simp add: activeDoctors_iff)
  from vi r len act
  show "\<exists>s'. finalizeTriage s visitId prio pre ai = Inr s' \<and>
            status (doctors s ! r) = active \<and>
            assigned_doctor_id (visits s' ! vi) = Some (doc_id (doctors s ! r))"
    by (simp add: finalizeTriage_def Let_def)
next
  fix vi
  assume vi: "findIndex (\<lambda>v. visit_id v = visitId) (visits s) = Some vi"
    and none: "activeDoctors (doctors s) = []"
  from vi have len: "vi < length (visits s)" by (simp add: findIndex_Some)
  from none have "findBestDoctor (doctors s) (routedSpecialty pre ai) prio = None"
    by (simp add: findBestDoctor_None)
  with vi len
  show "\<exists>s'. finalizeTriage s visitId prio pre ai = Inr s' \<and> doctors s' = doctors s \<and>
            assigned_doctor_id (visits s' ! vi) = assigned_doctor_id (visits s ! vi)"
    by (simp add: finalizeTriage_def Let_def)
qed

theorem chosen_clinician_is_active_witness:
  "findBestDoctor initial_doctors ''Neurology'' Normal = Some 2 \<and>
   status (initial_doctors ! 2) = active \<and>
   (\<exists>s'. finalizeTriage closed_store 1 Emergency None ''Neurology'' = Inr s' \<and>
         doctors s' = doctors closed_store \<and> assigned_doctor_id (visits s' ! 0) = None)"
proof -
  have a: "findBestDoctor initial_doctors ''Neurology'' Normal = Some 2" by code_simp
  have b: "findIndex (\<lambda>v. visit_id v = 1) (visits closed_store) = Some 0" by code_simp
  have c: "activeDoctors (doctors closed_store) = []" by code_simp
  have d: "assigned_doctor_id (visits closed_store ! 0) = None" by code_simp
  from chosen_clinician_is_active[of initial_doctors "''Neurology''" Normal 1 closed_store
      None "''Neurology''"] a
  have "status (initial_doctors ! 2) = active" by blast
  moreover
  from chosen_clinician_is_active[of initial_doctors "''Neurology''" Emergency 1 closed_store
      None "''Neurology''"] b c
  have "\<exists>s'. finalizeTriage closed_store 1 Emergency None ''Neurology'' = Inr s' \<and>
         doctors s' = doctors closed_store \<and>
         assigned_doctor_id (visits s' ! 0) = assigned_doctor_id (visits closed_store ! 0)"
    by blast
  ultimately show ?thesis using a d by simp
qed

text \<open>
  C3. For an Emergency visit with at least one active doctor, a doctor is chosen from
  the candidate set: the active doctors whose load is at most the average load over the
  active doctors, or all active doctors if there were none such. If a candidate's
  specialty equals the required one after both have been lowered, the chosen doctor is
  such a candidate and no such candidate has a smaller load; otherwise no candidate at
  all has a smaller load than the chosen one. This holds whatever the runtime's
  lowering \<open>lower\<close> does to a string.
\<close>

theorem emergency_selection:
  assumes "act = activeDoctors ds" and "act \<noteq> []"
  shows "avgLoad ds act = of_int (sum_list (map (\<lambda>d. currentLoad (ds ! d)) act)) / of_nat (length act) \<and>
         candidates ds act =
           (if filter (\<lambda>d. of_int (currentLoad (ds ! d)) \<le> avgLoad ds act) act \<noteq> []
            then filter (\<lambda>d. of_int (currentLoad (ds ! d)) \<le> avgLoad ds act) act else act) \<and>
         (\<exists>r. findBestDoctor_by lower ds t Emergency = Some r \<and> r \<in> set (candidates ds act) \<and>
            (if \<exists>x\<in>set (candidates ds act).
                  lower (specialty (ds ! x)) = lower t
             then lower (specialty (ds ! r)) = lower t \<and>
                  (\<forall>x\<in>set (candidates ds act).
                      lower (specialty (ds ! x)) = lower t \<longrightarrow>
                      currentLoad (ds ! r) \<le> currentLoad (ds ! x))
             else \<forall>x\<in>set (candidates ds act). currentLoad (ds ! r) \<le> currentLoad (ds ! x)))"
proof (intro conjI)
  show "avgLoad ds act = of_int (sum_list (map (\<lambda>d. currentLoad (ds ! d)) act)) / of_nat (length act)"
    by (simp add: avgLoad_def foldl_load_sum)
next
  show "candidates ds act =
           (if filter (\<lambda>d. of_int (currentLoad (ds ! d)) \<le> avgLoad ds act) act \<noteq> []
            then filter (\<lambda>d. of_int (currentLoad (ds ! d)) \<le> avgLoad ds act) act else act)"
    by (simp add: candidates_def lessBusy_def)
next
  let ?cs = "candidates ds act"
  let ?m = "\<lambda>x. lower (specialty (ds ! x)) = lower t"
  from assms(2) have fbd: "findBestDoctor_by lower ds t Emergency =
      (case foldl (emergencyStep_by lower ds t) None ?cs of
         Some b \<Rightarrow> Some b
       | None \<Rightarrow> firstOf (sort_key (\<lambda>d. currentLoad (ds ! d)) ?cs))"
    unfolding assms(1) by (simp add: findBestDoctor_by_def Let_def)
  show "\<exists>r. findBestDoctor_by lower ds t Emergency = Some r \<and> r \<in> set ?cs \<and>
            (if \<exists>x\<in>set ?cs. ?m x
             then ?m r \<and> (\<forall>x\<in>set ?cs. ?m x \<longrightarrow> currentLoad (ds ! r) \<le> currentLoad (ds ! x))
             else \<forall>x\<in>set ?cs. currentLoad (ds ! r) \<le> currentLoad (ds ! x))"
  proof (cases "foldl (emergencyStep_by lower ds t) None ?cs")
    case None
    then have nomatch: "\<forall>x\<in>set ?cs. \<not> ?m x"
      by (simp add: emergency_loop_None isMatch_by_def)
    from assms(2) have "?cs \<noteq> []" by (rule candidates_nonempty)
    then obtain r where r: "firstOf (sort_key (\<lambda>d. currentLoad (ds ! d)) ?cs) = Some r"
      using firstOf_sort_key_None[of "\<lambda>d. currentLoad (ds ! d)" ?cs] by auto
    from firstOf_sort_key[OF r] nomatch fbd None r show ?thesis by auto
  next
    case (Some b)
    from emergency_loop_Some[OF Some]
    have "b \<in> set ?cs" "isMatch_by lower ds t b"
      "\<forall>x\<in>set ?cs. isMatch_by lower ds t x \<longrightarrow> currentLoad (ds ! b) \<le> currentLoad (ds ! x)"
      by auto
    with fbd Some show ?thesis by (auto simp: isMatch_by_def)
  qed
qed

theorem emergency_selection_witness:
  "findBestDoctor_by toLowerCase_ascii initial_doctors ''NEUROLOGY'' Emergency = Some 2 \<and>
   candidates initial_doctors (activeDoctors initial_doctors) = [0, 1, 2, 3, 5]"
proof -
  have a: "activeDoctors initial_doctors \<noteq> []" by code_simp
  have c: "candidates initial_doctors (activeDoctors initial_doctors) = [0, 1, 2, 3, 5]"
    by code_simp
  have m: "toLowerCase_ascii (specialty (initial_doctors ! 2)) = toLowerCase_ascii ''NEUROLOGY''"
    by code_simp
  have u: "\<forall>x\<in>set [0, 1, 2, 3, 5].
             toLowerCase_ascii (specialty (initial_doctors ! x)) = toLowerCase_ascii ''NEUROLOGY'' \<longrightarrow> x = 2"
    by code_simp
  from emergency_selection[OF refl a, of toLowerCase_ascii "''NEUROLOGY''"] c
  obtain r where r: "findBestDoctor_by toLowerCase_ascii initial_doctors ''NEUROLOGY'' Emergency = Some r"
    "r \<in> set [0, 1, 2, 3, 5]"
    "if \<exists>x\<in>set [0, 1, 2, 3, 5].
            toLowerCase_ascii (specialty (initial_doctors ! x)) = toLowerCase_ascii ''NEUROLOGY''
     then toLowerCase_ascii (specialty (initial_doctors ! r)) = toLowerCase_ascii ''NEUROLOGY'' \<and>
          (\<forall>x\<in>set [0, 1, 2, 3, 5].
              toLowerCase_ascii (specialty (initial_doctors ! x)) = toLowerCase_ascii ''NEUROLOGY'' \<longrightarrow>
              currentLoad (initial_doctors ! r) \<le> currentLoad (initial_doctors ! x))
     else \<forall>x\<in>set [0, 1, 2, 3, 5].
              currentLoad (initial_doctors ! r) \<le> currentLoad (initial_doctors ! x)"
    by auto
  from m have "\<exists>x\<in>set [0, 1, 2, 3, 5].
            toLowerCase_ascii (specialty (initial_doctors ! x)) = toLowerCase_ascii ''NEUROLOGY''"
    by simp
  with r(3) have "toLowerCase_ascii (specialty (initial_doctors ! r)) = toLowerCase_ascii ''NEUROLOGY''"
    by (simp only: if_True)
  with u r(2) have "r = 2" by blast
  with r(1) c show ?thesis by simp
qed

text \<open>
  C10. In the emergency path, whenever some doctor is active, the active doctors whose
  load is at most the average over the active doctors are not all gone: every active
  doctor of least load is among them. So the candidate set is that subset, and the
  branch that would widen it to all active doctors is not taken.
\<close>

theorem emergency_fallback_never_taken:
  assumes "act = activeDoctors ds" and "act \<noteq> []"
  shows "lessBusy ds act \<noteq> [] \<and> candidates ds act = lessBusy ds act \<and>
         (\<forall>m\<in>set act. (\<forall>d\<in>set act. currentLoad (ds ! m) \<le> currentLoad (ds ! d)) \<longrightarrow>
                         m \<in> set (lessBusy ds act))"
proof (intro conjI ballI impI)
  from assms(2) show ne: "lessBusy ds act \<noteq> []" by (rule lessBusy_nonempty)
  then show "candidates ds act = lessBusy ds act" by (simp add: candidates_def)
next
  fix m assume "m \<in> set act" "\<forall>d\<in>set act. currentLoad (ds ! m) \<le> currentLoad (ds ! d)"
  then show "m \<in> set (lessBusy ds act)"
    using least_le_avgLoad[of m act ds] by (simp add: lessBusy_def)
qed

theorem emergency_fallback_never_taken_witness:
  "lessBusy initial_doctors (activeDoctors initial_doctors) \<noteq> [] \<and>
   candidates initial_doctors (activeDoctors initial_doctors) =
     lessBusy initial_doctors (activeDoctors initial_doctors) \<and>
   0 \<in> set (lessBusy initial_doctors (activeDoctors initial_doctors))"
proof -
  have a: "activeDoctors initial_doctors \<noteq> []" by code_simp
  have b: "0 \<in> set (activeDoctors initial_doctors)" by code_simp
  have c: "\<forall>d\<in>set (activeDoctors initial_doctors).
             currentLoad (initial_doctors ! 0) \<le> currentLoad (initial_doctors ! d)"
    by code_simp
  from emergency_fallback_never_taken[OF refl a] b c show ?thesis by blast
qed

text \<open>
  C8. Against one load snapshot (one average \<open>avg\<close>), a doctor record with a larger
  load has a strictly larger estimated wait, and, when the two records have the same
  specialty, its total cost is not lower, whatever the required specialty.
\<close>

theorem cost_monotone_in_load:
  assumes "currentLoad (ds ! i) < currentLoad (ds' ! j)"
  shows "estimatedWait ds i < estimatedWait ds' j \<and>
         (specialty (ds ! i) = specialty (ds' ! j) \<longrightarrow>
            totalCost ds t avg i \<le> totalCost ds' t avg j)"
proof (intro conjI impI)
  from assms show w: "estimatedWait ds i < estimatedWait ds' j"
    by (simp add: estimatedWait_def AVG_SERVICE_TIME_def)
  assume "specialty (ds ! i) = specialty (ds' ! j)"
  then have m: "mismatchCost_by toLowerCase_ascii ds t i = mismatchCost_by toLowerCase_ascii ds' t j"
    by (simp add: mismatchCost_by_def isMatch_by_def)
  from assms have "(of_int (currentLoad (ds ! i)) :: rat) - avg \<le> of_int (currentLoad (ds' ! j)) - avg"
    by simp
  then have "max 0 (of_int (currentLoad (ds ! i)) - avg) \<le> max 0 (of_int (currentLoad (ds' ! j)) - avg)"
    by (rule max.mono[OF order_refl])
  then have p: "loadPenalty ds avg i \<le> loadPenalty ds' avg j"
    by (simp add: loadPenalty_def LOAD_PENALTY_WEIGHT_def)
  from w m p show "totalCost ds t avg i \<le> totalCost ds' t avg j"
    by (simp add: totalCost_def totalCost_by_def)
qed

theorem cost_monotone_in_load_witness:
  "currentLoad (doctors busy_store ! 3) < currentLoad (doctors busy_store ! 0) \<and>
   estimatedWait (doctors busy_store) 3 < estimatedWait (doctors busy_store) 0 \<and>
   totalCost (doctors busy_store) ''Neurology'' (1 / 5) 3
     \<le> totalCost (doctors busy_store) ''Neurology'' (1 / 5) 0"
proof -
  have a: "currentLoad (doctors busy_store ! 3) < currentLoad (doctors busy_store ! 0)"
    by code_simp
  have b: "specialty (doctors busy_store ! 3) = specialty (doctors busy_store ! 0)"
    by code_simp
  from cost_monotone_in_load[OF a, of "''Neurology''" "1 / 5"] a b show ?thesis by blast
qed

text \<open>
  C2 (as the code has it). For a visit that is not an Emergency and a roster with an
  active doctor, the cost of a doctor is the sum of three terms: 10000 unless the
  doctor's specialty and the required one are equal after both have been lowered, 900
  per current patient, and 300 per patient above the average load of the active
  doctors. The assigner returns a doctor of least cost among the active ones, and
  returns that doctor only. There is no shift term, and no cost is part of the result.
  This holds whatever the runtime's lowering \<open>lower\<close> does to a string.
\<close>

theorem standard_cost_has_three_terms:
  assumes "prio \<noteq> Emergency" and "act = activeDoctors ds" and "act \<noteq> []"
    and "avg = avgLoad ds act"
  shows "(\<forall>d. totalCost_by lower ds t avg d =
              (if lower (specialty (ds ! d)) = lower t then 0 else 10000)
              + of_int (currentLoad (ds ! d)) * 900
              + max 0 (of_int (currentLoad (ds ! d)) - avg) * 300) \<and>
         (\<exists>r. findBestDoctor_by lower ds t prio = Some r \<and> r \<in> set act \<and>
              (\<forall>d\<in>set act. totalCost_by lower ds t avg r \<le> totalCost_by lower ds t avg d))"
proof (intro conjI allI)
  fix d
  show "totalCost_by lower ds t avg d =
              (if lower (specialty (ds ! d)) = lower t then 0 else 10000)
              + of_int (currentLoad (ds ! d)) * 900
              + max 0 (of_int (currentLoad (ds ! d)) - avg) * 300"
    by (simp add: totalCost_by_def mismatchCost_by_def isMatch_by_def estimatedWait_def
        loadPenalty_def MISMATCH_PENALTY_def AVG_SERVICE_TIME_def LOAD_PENALTY_WEIGHT_def)
next
  from assms(2,3) have ne: "activeDoctors ds \<noteq> []" by simp
  from standard_branch[OF assms(1) ne, of lower t] assms(2,4)
  show "\<exists>r. findBestDoctor_by lower ds t prio = Some r \<and> r \<in> set act \<and>
              (\<forall>d\<in>set act. totalCost_by lower ds t avg r \<le> totalCost_by lower ds t avg d)"
    by auto
qed

theorem standard_cost_has_three_terms_witness:
  "totalCost_by toLowerCase_ascii (doctors busy_store) ''Internal Medicine'' (1 / 5) 0 = 1140 \<and>
   (\<exists>r. findBestDoctor_by toLowerCase_ascii (doctors busy_store) ''Internal Medicine'' Normal
          = Some r \<and>
        totalCost_by toLowerCase_ascii (doctors busy_store) ''Internal Medicine'' (1 / 5) r
          \<le> totalCost_by toLowerCase_ascii (doctors busy_store) ''Internal Medicine'' (1 / 5) 0)"
proof -
  let ?c = "totalCost_by toLowerCase_ascii (doctors busy_store) ''Internal Medicine'' (1 / 5)"
  have a: "activeDoctors (doctors busy_store) \<noteq> []" by code_simp
  have b: "1 / 5 = avgLoad (doctors busy_store) (activeDoctors (doctors busy_store))"
    by code_simp
  have c: "0 \<in> set (activeDoctors (doctors busy_store))" by code_simp
  have d: "(if toLowerCase_ascii (specialty (doctors busy_store ! 0))
               = toLowerCase_ascii ''Internal Medicine''
            then 0 else 10000)
           + of_int (currentLoad (doctors busy_store ! 0)) * 900
           + max 0 (of_int (currentLoad (doctors busy_store ! 0)) - 1 / 5) * 300 = (1140 :: rat)"
    by code_simp
  have n: "Normal \<noteq> Emergency" by simp
  from standard_cost_has_three_terms[OF n refl a b, of toLowerCase_ascii "''Internal Medicine''"]
  obtain r where
    eq: "\<forall>d. ?c d =
              (if toLowerCase_ascii (specialty (doctors busy_store ! d))
                  = toLowerCase_ascii ''Internal Medicine''
               then 0 else 10000)
              + of_int (currentLoad (doctors busy_store ! d)) * 900
              + max 0 (of_int (currentLoad (doctors busy_store ! d)) - 1 / 5) * 300"
    and r: "findBestDoctor_by toLowerCase_ascii (doctors busy_store) ''Internal Medicine'' Normal
              = Some r"
      "\<forall>d\<in>set (activeDoctors (doctors busy_store)). ?c r \<le> ?c d"
    by blast
  from trans[OF spec[OF eq, of 0] d] have "?c 0 = 1140" .
  moreover from r(2) c have "?c r \<le> ?c 0" by blast
  ultimately show ?thesis using r(1) by blast
qed

text \<open>
  Two requirements for which the assigner returns the same result, the first doctor of
  the seeded roster, although that doctor's cost is 0 for one and 10000 for the other:
  the result does not carry the cost or its terms.
\<close>

theorem result_carries_no_breakdown:
  "findBestDoctor initial_doctors ''Internal Medicine'' Normal = Some 0 \<and>
   findBestDoctor initial_doctors ''Cardiology'' Normal = Some 0 \<and>
   totalCost initial_doctors ''Internal Medicine''
     (avgLoad initial_doctors (activeDoctors initial_doctors)) 0 = 0 \<and>
   totalCost initial_doctors ''Cardiology''
     (avgLoad initial_doctors (activeDoctors initial_doctors)) 0 = 10000"
  by code_simp

text \<open>
  C6 (as the code has it). An empty required specialty is compared like any other: the
  mismatch cost is 0 only for a doctor whose own specialty is empty, and 10000 for
  every other doctor. The assignment still goes through whenever a doctor is active.
  An empty pre-calculated specialty passed to \<open>finalizeTriage\<close> is replaced by the
  classifier's answer.
\<close>

theorem empty_requirement_is_compared:
  "mismatchCost ds [] d = (if specialty (ds ! d) = [] then 0 else 10000) \<and>
   (activeDoctors ds \<noteq> [] \<longrightarrow> findBestDoctor ds [] prio \<noteq> None) \<and>
   routedSpecialty (Some []) ai = ai"
  by (simp add: mismatchCost_def mismatchCost_by_def isMatch_by_def toLowerCase_ascii_def
      MISMATCH_PENALTY_def findBestDoctor_None routedSpecialty_def)

theorem empty_requirement_is_compared_witness:
  "activeDoctors initial_doctors \<noteq> [] \<and> findBestDoctor initial_doctors [] Normal \<noteq> None"
proof -
  have a: "activeDoctors initial_doctors \<noteq> []" by code_simp
  from empty_requirement_is_compared[of initial_doctors 0 Normal "[]"] a show ?thesis by blast
qed

text \<open>
  With an empty required specialty every doctor of the seeded roster is charged the
  mismatch penalty.
\<close>

theorem empty_requirement_mismatch_charged:
  "map (mismatchCost initial_doctors []) (activeDoctors initial_doctors)
     = [10000, 10000, 10000, 10000, 10000]"
  by code_simp




section \<open>Loads under sequences of operations\<close>

lemma list_all_update:
  "list_all P xs \<Longrightarrow> P y \<Longrightarrow> list_all P (xs[i := y])"
  by (induction xs arbitrary: i) (auto split: nat.splits)

lemma decrementLoad_nonneg:
  assumes "list_all (\<lambda>d. 0 \<le> currentLoad d) ds"
  shows "list_all (\<lambda>d. 0 \<le> currentLoad d) (decrementLoad ds a)"
  using assms by (auto simp: decrementLoad_def intro: list_all_update split: option.splits)

lemma apply_event_nonneg:
  assumes "list_all (\<lambda>d. 0 \<le> currentLoad d) (doctors s)"
  shows "list_all (\<lambda>d. 0 \<le> currentLoad d) (doctors (apply_event s e))"
proof (cases e)
  case (AddDoctor newId nm spec st)
  with assms show ?thesis by (simp add: addDoctor_def)
next
  case (UpdateDoctorStatus doctorId st)
  show ?thesis
  proof (cases "findIndex (\<lambda>d. doc_id d = doctorId) (doctors s)")
    case None
    with assms UpdateDoctorStatus show ?thesis by (simp add: updateDoctorStatus_def)
  next
    case (Some i)
    then have "i < length (doctors s)" by (simp add: findIndex_Some)
    with assms have "0 \<le> currentLoad (doctors s ! i)" by (simp add: list_all_length)
    with assms Some UpdateDoctorStatus show ?thesis
      by (simp add: updateDoctorStatus_def list_all_update)
  qed
next
  case (CreatePatient nm)
  with assms show ?thesis by (simp add: createPatient_def)
next
  case (BeginVisit patientId)
  with assms show ?thesis by (simp add: beginVisit_def orElse_def split: option.splits)
next
  case (FinalizeTriage visitId prio pre ai)
  show ?thesis
  proof (cases "findIndex (\<lambda>v. visit_id v = visitId) (visits s)")
    case None
    with assms FinalizeTriage show ?thesis by (simp add: finalizeTriage_def orElse_def)
  next
    case vi: (Some vi)
    show ?thesis
    proof (cases "findBestDoctor (doctors s) (routedSpecialty pre ai) prio")
      case None
      with assms FinalizeTriage vi show ?thesis
        by (simp add: finalizeTriage_def orElse_def Let_def)
    next
      case (Some r)
      then have "r \<in> set (activeDoctors (doctors s))" by (rule findBestDoctor_Some)
      then have "r < length (doctors s)" by (simp add: activeDoctors_iff)
      with assms have "0 \<le> currentLoad (doctors s ! r)" by (simp add: list_all_length)
      with assms FinalizeTriage vi Some show ?thesis
        by (simp add: finalizeTriage_def orElse_def Let_def list_all_update)
    qed
  qed
next
  case (UpdateVisitStatus visitId st)
  with assms show ?thesis by (simp add: updateVisitStatus_def orElse_def split: option.splits)
next
  case (SubmitDiagnosis visitId)
  with assms show ?thesis
    by (simp add: submitDiagnosis_def orElse_def decrementLoad_nonneg split: option.splits)
qed

lemma run_nonneg:
  "list_all (\<lambda>d. 0 \<le> currentLoad d) (doctors s) \<Longrightarrow>
   list_all (\<lambda>d. 0 \<le> currentLoad d) (doctors (run s evs))"
  unfolding run_def by (induction evs arbitrary: s) (simp_all add: apply_event_nonneg)

text \<open>
  C9. After any sequence of calls of the store's functions, every doctor's load is a
  non-negative integer, provided it was so before; in particular after any sequence
  from the seeded store. No guard on the caller is needed: the decrement in
  \<open>submitDiagnosis\<close> stops at 0.
\<close>

theorem loads_never_negative:
  "(list_all (\<lambda>d. 0 \<le> currentLoad d) (doctors s) \<longrightarrow>
      list_all (\<lambda>d. 0 \<le> currentLoad d) (doctors (run s evs))) \<and>
   list_all (\<lambda>d. 0 \<le> currentLoad d) (doctors (run initial_store evs))"
proof
  show "list_all (\<lambda>d. 0 \<le> currentLoad d) (doctors s) \<longrightarrow>
      list_all (\<lambda>d. 0 \<le> currentLoad d) (doctors (run s evs))"
    by (simp add: run_nonneg)
  have "list_all (\<lambda>d. 0 \<le> currentLoad d) (doctors initial_store)"
    by (simp add: initial_store_def initial_doctors_def)
  then show "list_all (\<lambda>d. 0 \<le> currentLoad d) (doctors (run initial_store evs))"
    by (rule run_nonneg)
qed

theorem loads_never_negative_witness:
  "list_all (\<lambda>d. 0 \<le> currentLoad d) (doctors busy_store) \<and>
   list_all (\<lambda>d. 0 \<le> currentLoad d)
     (doctors (run busy_store [SubmitDiagnosis 1, SubmitDiagnosis 1, SubmitDiagnosis 7])) \<and>
   map currentLoad (doctors (run busy_store [SubmitDiagnosis 1, SubmitDiagnosis 1, SubmitDiagnosis 7]))
     = [0, 0, 0, 0, 0, 0]"
proof -
  have a: "list_all (\<lambda>d. 0 \<le> currentLoad d) (doctors busy_store)" by code_simp
  have b: "map currentLoad
             (doctors (run busy_store [SubmitDiagnosis 1, SubmitDiagnosis 1, SubmitDiagnosis 7]))
           = [0, 0, 0, 0, 0, 0]" by code_simp
  from loads_never_negative[of busy_store "[SubmitDiagnosis 1, SubmitDiagnosis 1, SubmitDiagnosis 7]"] a b
  show ?thesis by blast
qed

section \<open>Load conservation\<close>

lemma count_update:
  "i < length xs \<Longrightarrow>
   int (length (filter P (xs[i := y]))) =
     int (length (filter P xs)) - of_bool (P (xs ! i)) + of_bool (P y)"
proof (induction xs arbitrary: i)
  case Nil
  then show ?case by simp
next
  case (Cons x xs)
  then show ?case by (cases i) auto
qed

lemma caseload_update:
  assumes "vi < length (visits s)" and "visits s' = (visits s)[vi := v']"
  shows "caseload s' x = caseload s x - of_bool (heldBy x (visits s ! vi)) + of_bool (heldBy x v')"
  using assms by (simp add: caseload_def count_update)

lemma consistent_iff:
  "consistent s \<longleftrightarrow>
     distinct (map doc_id (doctors s)) \<and> [] \<notin> set (map doc_id (doctors s)) \<and>
     (\<forall>i<length (visits s). \<forall>x. assigned_doctor_id (visits s ! i) = Some x \<longrightarrow>
         x \<in> set (map doc_id (doctors s))) \<and>
     (\<forall>j<length (doctors s). currentLoad (doctors s ! j) = caseload s (doc_id (doctors s ! j)))"
  unfolding consistent_def list_all_length by (auto split: option.splits)

lemma ids_update:
  "doc_id d' = doc_id (ds ! r) \<Longrightarrow> map doc_id (ds[r := d']) = map doc_id ds"
  by (induction ds arbitrary: r) (auto split: nat.splits)

lemma ids_inj:
  assumes "distinct (map doc_id ds)" and "i < length ds" and "j < length ds"
    and "doc_id (ds ! i) = doc_id (ds ! j)"
  shows "i = j"
  using assms nth_eq_iff_index_eq[of "map doc_id ds" i j] by simp

lemma findIndex_id:
  assumes "distinct (map doc_id ds)" and "x \<in> set (map doc_id ds)"
  shows "\<exists>di. findIndex (\<lambda>d. doc_id d = x) ds = Some di \<and> di < length ds \<and> doc_id (ds ! di) = x"
proof (cases "findIndex (\<lambda>d. doc_id d = x) ds")
  case None
  with assms(2) show ?thesis by (auto simp: findIndex_None)
next
  case (Some di)
  with findIndex_Some[OF Some] show ?thesis by simp
qed

text \<open>A visit is rewritten without changing who holds it.\<close>

lemma consistent_neutral:
  assumes c: "consistent s" and vi: "vi < length (visits s)"
    and d: "doctors s' = doctors s" and v: "visits s' = (visits s)[vi := v']"
    and a: "assigned_doctor_id v' = assigned_doctor_id (visits s ! vi)"
    and same: "\<And>x. heldBy x v' = heldBy x (visits s ! vi)"
  shows "consistent s'"
proof -
  have load: "\<And>x. caseload s' x = caseload s x"
    by (simp add: caseload_update[OF vi v] same)
  have ids: "\<forall>i<length (visits s'). \<forall>x. assigned_doctor_id (visits s' ! i) = Some x \<longrightarrow>
         x \<in> set (map doc_id (doctors s'))"
  proof (intro allI impI)
    fix i x assume i: "i < length (visits s')" and x: "assigned_doctor_id (visits s' ! i) = Some x"
    from i v have i': "i < length (visits s)" by simp
    from x v a i' have "assigned_doctor_id (visits s ! i) = Some x"
      by (cases "i = vi") (simp_all add: nth_list_update)
    with c i' d show "x \<in> set (map doc_id (doctors s'))" by (simp add: consistent_iff)
  qed
  from c d load ids show ?thesis by (simp add: consistent_iff)
qed

text \<open>An unassigned visit is given to the doctor at position \<open>r\<close>, whose load goes up by one.\<close>

lemma consistent_assign:
  assumes c: "consistent s" and vi: "vi < length (visits s)" and r: "r < length (doctors s)"
    and d: "doctors s' = (doctors s)[r := (doctors s ! r)\<lparr>currentLoad := currentLoad (doctors s ! r) + 1\<rparr>]"
    and v: "visits s' = (visits s)[vi := v']"
    and un: "assigned_doctor_id (visits s ! vi) = None"
    and a: "assigned_doctor_id v' = Some (doc_id (doctors s ! r))"
    and st: "visit_status v' \<noteq> ''seen''"
  shows "consistent s'"
proof -
  from d have idseq: "map doc_id (doctors s') = map doc_id (doctors s)"
    by (simp add: ids_update)
  from d have len: "length (doctors s') = length (doctors s)" by simp
  from c have dist: "distinct (map doc_id (doctors s))" by (simp add: consistent_iff)
  from r have rid: "doc_id (doctors s ! r) \<in> set (map doc_id (doctors s))" by simp
  have ids: "\<forall>i<length (visits s'). \<forall>x. assigned_doctor_id (visits s' ! i) = Some x \<longrightarrow>
         x \<in> set (map doc_id (doctors s'))"
  proof (intro allI impI)
    fix i x assume i: "i < length (visits s')" and x: "assigned_doctor_id (visits s' ! i) = Some x"
    from i v have i': "i < length (visits s)" by simp
    show "x \<in> set (map doc_id (doctors s'))"
    proof (cases "i = vi")
      case True
      with x v a i' have "x = doc_id (doctors s ! r)" by simp
      with rid idseq show ?thesis by simp
    next
      case False
      with x v have "assigned_doctor_id (visits s ! i) = Some x" by simp
      with c i' have "x \<in> set (map doc_id (doctors s))" by (simp add: consistent_iff)
      with idseq show ?thesis by simp
    qed
  qed
  have loads: "\<forall>j<length (doctors s'). currentLoad (doctors s' ! j) = caseload s' (doc_id (doctors s' ! j))"
  proof (intro allI impI)
    fix j assume "j < length (doctors s')"
    with len have j: "j < length (doctors s)" by simp
    from c j have old: "currentLoad (doctors s ! j) = caseload s (doc_id (doctors s ! j))"
      by (simp add: consistent_iff)
    from idseq j len have idj: "doc_id (doctors s' ! j) = doc_id (doctors s ! j)"
      by (metis nth_map)
    from un have before: "\<not> heldBy (doc_id (doctors s ! j)) (visits s ! vi)"
      by (simp add: heldBy_def)
    from a st have after: "heldBy (doc_id (doctors s ! j)) v' \<longleftrightarrow> doc_id (doctors s ! r) = doc_id (doctors s ! j)"
      by (simp add: heldBy_def)
    show "currentLoad (doctors s' ! j) = caseload s' (doc_id (doctors s' ! j))"
    proof (cases "j = r")
      case True
      with d r have "currentLoad (doctors s' ! j) = currentLoad (doctors s ! j) + 1" by simp
      moreover from True after before
      have "caseload s' (doc_id (doctors s ! j)) = caseload s (doc_id (doctors s ! j)) + 1"
        by (simp add: caseload_update[OF vi v])
      ultimately show ?thesis using old idj by simp
    next
      case False
      with d j have same: "currentLoad (doctors s' ! j) = currentLoad (doctors s ! j)" by simp
      from False ids_inj[OF dist r j] have "doc_id (doctors s ! r) \<noteq> doc_id (doctors s ! j)"
        by blast
      with after before
      have "caseload s' (doc_id (doctors s ! j)) = caseload s (doc_id (doctors s ! j))"
        by (simp add: caseload_update[OF vi v])
      with same old idj show ?thesis by simp
    qed
  qed
  from c idseq ids loads show ?thesis by (simp add: consistent_iff)
qed

text \<open>A held visit is completed: its doctor is found, has a positive load, and loses one.\<close>

lemma consistent_complete:
  assumes c: "consistent s" and vi: "vi < length (visits s)"
    and a: "assigned_doctor_id (visits s ! vi) = Some x"
    and st: "visit_status (visits s ! vi) \<noteq> ''seen''"
  shows "\<exists>di. findIndex (\<lambda>d. doc_id d = x) (doctors s) = Some di \<and>
              1 \<le> currentLoad (doctors s ! di) \<and> x \<noteq> [] \<and>
              (\<forall>s' v'. doctors s' = (doctors s)[di := (doctors s ! di)
                                  \<lparr>currentLoad := currentLoad (doctors s ! di) - 1\<rparr>] \<longrightarrow>
                        visits s' = (visits s)[vi := v'] \<longrightarrow>
                        assigned_doctor_id v' = Some x \<longrightarrow> visit_status v' = ''seen'' \<longrightarrow>
                        consistent s')"
proof -
  from c have dist: "distinct (map doc_id (doctors s))"
    and nonempty: "[] \<notin> set (map doc_id (doctors s))" by (simp_all add: consistent_iff)
  from c vi a have xin: "x \<in> set (map doc_id (doctors s))" by (simp add: consistent_iff)
  with nonempty have xne: "x \<noteq> []" by blast
  from findIndex_id[OF dist xin] obtain di where
    di: "findIndex (\<lambda>d. doc_id d = x) (doctors s) = Some di" "di < length (doctors s)"
      "doc_id (doctors s ! di) = x" by blast
  from a st have held: "heldBy x (visits s ! vi)" by (simp add: heldBy_def)
  have "visits s ! vi \<in> set (filter (heldBy x) (visits s))" using vi held by simp
  then have "filter (heldBy x) (visits s) \<noteq> []" by (metis empty_iff empty_set)
  then have "1 \<le> caseload s x" by (cases "filter (heldBy x) (visits s)") (simp_all add: caseload_def)
  with c di have pos: "1 \<le> currentLoad (doctors s ! di)" by (simp add: consistent_iff)
  have step: "consistent s'"
    if d: "doctors s' = (doctors s)[di := (doctors s ! di)\<lparr>currentLoad := currentLoad (doctors s ! di) - 1\<rparr>]"
      and v: "visits s' = (visits s)[vi := v']"
      and a': "assigned_doctor_id v' = Some x" and st': "visit_status v' = ''seen''"
    for s' v'
  proof -
    from d have idseq: "map doc_id (doctors s') = map doc_id (doctors s)" by (simp add: ids_update)
    from d have len: "length (doctors s') = length (doctors s)" by simp
    have ids: "\<forall>i<length (visits s'). \<forall>y. assigned_doctor_id (visits s' ! i) = Some y \<longrightarrow>
         y \<in> set (map doc_id (doctors s'))"
    proof (intro allI impI)
      fix i y assume i: "i < length (visits s')" and y: "assigned_doctor_id (visits s' ! i) = Some y"
      from i v have i': "i < length (visits s)" by simp
      from y v a a' i' have "assigned_doctor_id (visits s ! i) = Some y"
        by (cases "i = vi") (simp_all add: nth_list_update)
      with c i' idseq show "y \<in> set (map doc_id (doctors s'))" by (simp add: consistent_iff)
    qed
    have loads: "\<forall>j<length (doctors s'). currentLoad (doctors s' ! j) = caseload s' (doc_id (doctors s' ! j))"
    proof (intro allI impI)
      fix j assume "j < length (doctors s')"
      with len have j: "j < length (doctors s)" by simp
      from c j have old: "currentLoad (doctors s ! j) = caseload s (doc_id (doctors s ! j))"
        by (simp add: consistent_iff)
      from idseq j len have idj: "doc_id (doctors s' ! j) = doc_id (doctors s ! j)"
        by (metis nth_map)
      from st' have after: "\<not> heldBy (doc_id (doctors s ! j)) v'" by (simp add: heldBy_def)
      from a st have before: "heldBy (doc_id (doctors s ! j)) (visits s ! vi) \<longleftrightarrow> x = doc_id (doctors s ! j)"
        by (auto simp: heldBy_def)
      show "currentLoad (doctors s' ! j) = caseload s' (doc_id (doctors s' ! j))"
      proof (cases "j = di")
        case True
        with d di(2) have "currentLoad (doctors s' ! j) = currentLoad (doctors s ! j) - 1" by simp
        moreover from True di(3) after before
        have "caseload s' (doc_id (doctors s ! j)) = caseload s (doc_id (doctors s ! j)) - 1"
          by (simp add: caseload_update[OF vi v])
        ultimately show ?thesis using old idj by simp
      next
        case False
        with d j have same: "currentLoad (doctors s' ! j) = currentLoad (doctors s ! j)" by simp
        from False ids_inj[OF dist di(2) j] di(3) have "x \<noteq> doc_id (doctors s ! j)" by blast
        with after before
        have "caseload s' (doc_id (doctors s ! j)) = caseload s (doc_id (doctors s ! j))"
          by (simp add: caseload_update[OF vi v])
        with same old idj show ?thesis by simp
      qed
    qed
    from c idseq ids loads show ?thesis by (simp add: consistent_iff)
  qed
  from di(1) pos xne step show ?thesis by blast
qed

lemma caseload_same_visits: "visits s' = visits s \<Longrightarrow> caseload s' x = caseload s x"
  by (simp add: caseload_def)

lemma consistent_same:
  "doctors s' = doctors s \<Longrightarrow> visits s' = visits s \<Longrightarrow> consistent s' = consistent s"
  by (simp add: consistent_iff caseload_def)

lemma visitById_Some:
  "findIndex (\<lambda>v. visit_id v = visitId) (visits s) = Some vi \<Longrightarrow>
   visitById s visitId = Some (visits s ! vi)"
  by (simp add: visitById_def)

lemma consistent_addDoctor:
  assumes c: "consistent s" and ok: "newId \<noteq> []" "newId \<notin> set (map doc_id (doctors s))"
  shows "consistent (addDoctor s newId nm spec st)"
proof -
  let ?s' = "addDoctor s newId nm spec st"
  have d: "doctors ?s' = doctors s @
      [\<lparr>doc_id = newId, name = nm, specialty = spec, currentLoad = 0, status = st\<rparr>]"
    and v: "visits ?s' = visits s" by (simp_all add: addDoctor_def)
  from c have known: "\<forall>i<length (visits s). \<forall>x. assigned_doctor_id (visits s ! i) = Some x \<longrightarrow>
         x \<in> set (map doc_id (doctors s))" by (simp add: consistent_iff)
  have "\<forall>w\<in>set (visits s). \<not> heldBy newId w"
  proof
    fix w assume "w \<in> set (visits s)"
    then obtain i where "i < length (visits s)" "w = visits s ! i" by (metis in_set_conv_nth)
    with known ok(2) show "\<not> heldBy newId w" by (auto simp: heldBy_def)
  qed
  then have "filter (heldBy newId) (visits s) = []" by (simp add: filter_empty_conv)
  then have zero: "caseload s newId = 0" by (simp add: caseload_def)
  have loads: "\<forall>j<length (doctors ?s'). currentLoad (doctors ?s' ! j) = caseload ?s' (doc_id (doctors ?s' ! j))"
  proof (intro allI impI)
    fix j assume j: "j < length (doctors ?s')"
    show "currentLoad (doctors ?s' ! j) = caseload ?s' (doc_id (doctors ?s' ! j))"
    proof (cases "j < length (doctors s)")
      case True
      with c have "currentLoad (doctors s ! j) = caseload s (doc_id (doctors s ! j))"
        by (simp add: consistent_iff)
      with True d show ?thesis by (simp add: nth_append caseload_same_visits[OF v])
    next
      case False
      with j d have "j = length (doctors s)" by simp
      with d zero show ?thesis by (simp add: caseload_same_visits[OF v])
    qed
  qed
  from c ok d v known loads show ?thesis by (simp add: consistent_iff)
qed

lemma consistent_updateDoctorStatus:
  assumes c: "consistent s"
  shows "consistent (updateDoctorStatus s doctorId st)"
proof (cases "findIndex (\<lambda>d. doc_id d = doctorId) (doctors s)")
  case None
  with c show ?thesis by (simp add: updateDoctorStatus_def)
next
  case (Some i)
  let ?s' = "updateDoctorStatus s doctorId st"
  from Some have d: "doctors ?s' = (doctors s)[i := (doctors s ! i)\<lparr>status := st\<rparr>]"
    and v: "visits ?s' = visits s" by (simp_all add: updateDoctorStatus_def)
  from d have idseq: "map doc_id (doctors ?s') = map doc_id (doctors s)" by (simp add: ids_update)
  have loads: "\<forall>j<length (doctors ?s'). currentLoad (doctors ?s' ! j) = caseload ?s' (doc_id (doctors ?s' ! j))"
  proof (intro allI impI)
    fix j assume "j < length (doctors ?s')"
    with d have j: "j < length (doctors s)" by simp
    with c have "currentLoad (doctors s ! j) = caseload s (doc_id (doctors s ! j))"
      by (simp add: consistent_iff)
    with d j show "currentLoad (doctors ?s' ! j) = caseload ?s' (doc_id (doctors ?s' ! j))"
      by (cases "j = i") (simp_all add: caseload_same_visits[OF v])
  qed
  from c idseq v loads show ?thesis by (simp add: consistent_iff)
qed

lemma consistent_beginVisit:
  assumes c: "consistent s" and b: "beginVisit s patientId = Inr s'"
  shows "consistent s'"
proof -
  let ?new = "\<lparr>visit_id = nextVisitId s, patient_id = patientId,
                      visit_status = ''triage'', priority = Normal,
                      assigned_doctor_id = None, ai_assigned_specialty = None,
                      diagnosis = False\<rparr>"
  from b have d: "doctors s' = doctors s" and v: "visits s' = visits s @ [?new]"
    by (auto simp: beginVisit_def split: option.splits)
  have "\<And>x. caseload s' x = caseload s x" by (simp add: caseload_def v heldBy_def)
  with c d v show ?thesis by (simp add: consistent_def cong: option.case_cong)
qed

lemma consistent_updateVisitStatus:
  assumes c: "consistent s" and ok: "lifecycle_ok s (UpdateVisitStatus visitId st)"
    and u: "updateVisitStatus s visitId st (\<lambda>v. v) = Inr s'"
  shows "consistent s'"
proof -
  from u obtain vi where vi: "findIndex (\<lambda>v. visit_id v = visitId) (visits s) = Some vi"
    by (auto simp: updateVisitStatus_def split: option.splits)
  then have len: "vi < length (visits s)" by (simp add: findIndex_Some)
  from u vi have d: "doctors s' = doctors s"
    and v: "visits s' = (visits s)[vi := (visits s ! vi)\<lparr>visit_status := st\<rparr>]"
    by (auto simp: updateVisitStatus_def)
  from ok visitById_Some[OF vi] have "st \<noteq> ''seen''" "visit_status (visits s ! vi) \<noteq> ''seen''"
    by simp_all
  then have "\<And>x. heldBy x ((visits s ! vi)\<lparr>visit_status := st\<rparr>) = heldBy x (visits s ! vi)"
    by (simp add: heldBy_def)
  with consistent_neutral[OF c len d v] show ?thesis by simp
qed

lemma consistent_finalizeTriage:
  assumes c: "consistent s" and ok: "lifecycle_ok s (FinalizeTriage visitId prio pre ai)"
    and f: "finalizeTriage s visitId prio pre ai = Inr s'"
  shows "consistent s'"
proof -
  from f obtain vi where vi: "findIndex (\<lambda>v. visit_id v = visitId) (visits s) = Some vi"
    by (auto simp: finalizeTriage_def split: option.splits)
  then have len: "vi < length (visits s)" by (simp add: findIndex_Some)
  from ok visitById_Some[OF vi] have un: "assigned_doctor_id (visits s ! vi) = None" by simp
  let ?spec = "routedSpecialty pre ai"
  let ?visit = "(visits s ! vi)\<lparr>visit_status := ''waiting'', priority := prio,
                          ai_assigned_specialty := Some ?spec\<rparr>"
  show ?thesis
  proof (cases "findBestDoctor (doctors s) ?spec prio")
    case None
    with f vi have d: "doctors s' = doctors s" and v: "visits s' = (visits s)[vi := ?visit]"
      by (auto simp: finalizeTriage_def Let_def)
    from un have "\<And>x. heldBy x ?visit = heldBy x (visits s ! vi)" by (simp add: heldBy_def)
    with consistent_neutral[OF c len d v] show ?thesis by simp
  next
    case (Some r)
    then have "r \<in> set (activeDoctors (doctors s))" by (rule findBestDoctor_Some)
    then have r: "r < length (doctors s)" by (simp add: activeDoctors_iff)
    from f vi Some
    have d: "doctors s' = (doctors s)[r := (doctors s ! r)\<lparr>currentLoad := currentLoad (doctors s ! r) + 1\<rparr>]"
      and v: "visits s' = (visits s)[vi := ?visit\<lparr>assigned_doctor_id := Some (doc_id (doctors s ! r))\<rparr>]"
      by (auto simp: finalizeTriage_def Let_def)
    from consistent_assign[OF c len r d v un] show ?thesis by simp
  qed
qed

lemma consistent_submitDiagnosis:
  assumes c: "consistent s" and ok: "lifecycle_ok s (SubmitDiagnosis visitId)"
    and f: "submitDiagnosis s visitId = Inr s'"
  shows "consistent s'"
proof -
  from f obtain vi where vi: "findIndex (\<lambda>v. visit_id v = visitId) (visits s) = Some vi"
    by (auto simp: submitDiagnosis_def split: option.splits)
  then have len: "vi < length (visits s)" by (simp add: findIndex_Some)
  from ok visitById_Some[OF vi] have st: "visit_status (visits s ! vi) \<noteq> ''seen''" by simp
  let ?visit = "(visits s ! vi)\<lparr>diagnosis := True, visit_status := ''seen''\<rparr>"
  from f vi have v: "visits s' = (visits s)[vi := ?visit]"
    and d: "doctors s' = decrementLoad (doctors s) (assigned_doctor_id (visits s ! vi))"
    by (auto simp: submitDiagnosis_def)
  show ?thesis
  proof (cases "assigned_doctor_id (visits s ! vi)")
    case None
    with d have d': "doctors s' = doctors s" by (simp add: decrementLoad_def)
    from None have "\<And>x. heldBy x ?visit = heldBy x (visits s ! vi)" by (simp add: heldBy_def)
    with consistent_neutral[OF c len d' v] show ?thesis by simp
  next
    case (Some x)
    from consistent_complete[OF c len Some st] obtain di where
      di: "findIndex (\<lambda>d. doc_id d = x) (doctors s) = Some di" "1 \<le> currentLoad (doctors s ! di)"
        "x \<noteq> []"
      and step: "\<forall>s' v'. doctors s' = (doctors s)[di := (doctors s ! di)
                                  \<lparr>currentLoad := currentLoad (doctors s ! di) - 1\<rparr>] \<longrightarrow>
                        visits s' = (visits s)[vi := v'] \<longrightarrow>
                        assigned_doctor_id v' = Some x \<longrightarrow> visit_status v' = ''seen'' \<longrightarrow>
                        consistent s'"
      by blast
    from di(2) have "max 0 (currentLoad (doctors s ! di) - 1) = currentLoad (doctors s ! di) - 1"
      by simp
    with d Some di have "doctors s' = (doctors s)[di := (doctors s ! di)
                                  \<lparr>currentLoad := currentLoad (doctors s ! di) - 1\<rparr>]"
      by (simp add: decrementLoad_def)
    moreover from Some have "assigned_doctor_id ?visit = Some x" "visit_status ?visit = ''seen''"
      by simp_all
    ultimately show ?thesis using step v by blast
  qed
qed

lemma apply_event_consistent:
  assumes c: "consistent s" and ok: "lifecycle_ok s e"
  shows "consistent (apply_event s e)"
proof (cases e)
  case (AddDoctor newId nm spec st)
  with c ok show ?thesis by (simp add: consistent_addDoctor)
next
  case (UpdateDoctorStatus doctorId st)
  with c show ?thesis by (simp add: consistent_updateDoctorStatus)
next
  case (CreatePatient nm)
  have "consistent (createPatient s nm) = consistent s"
    by (rule consistent_same) (simp_all add: createPatient_def)
  with c CreatePatient show ?thesis by simp
next
  case (BeginVisit patientId)
  with c show ?thesis
    by (cases "beginVisit s patientId") (simp_all add: orElse_def consistent_beginVisit)
next
  case (FinalizeTriage visitId prio pre ai)
  with c ok show ?thesis
    by (cases "finalizeTriage s visitId prio pre ai")
       (simp_all add: orElse_def consistent_finalizeTriage)
next
  case (UpdateVisitStatus visitId st)
  with c ok show ?thesis
    by (cases "updateVisitStatus s visitId st (\<lambda>v. v)")
       (simp_all add: orElse_def consistent_updateVisitStatus)
next
  case (SubmitDiagnosis visitId)
  with c ok show ?thesis
    by (cases "submitDiagnosis s visitId") (simp_all add: orElse_def consistent_submitDiagnosis)
qed

lemma run_consistent:
  "consistent s \<Longrightarrow> valid_run s evs \<Longrightarrow> consistent (run s evs)"
  unfolding run_def
  by (induction evs arbitrary: s) (simp_all add: apply_event_consistent)

lemma empty_clinic_consistent: "empty_clinic s \<Longrightarrow> consistent s"
  by (simp add: empty_clinic_def consistent_def caseload_def)

lemma indicator_sum:
  "distinct (map f ds) \<Longrightarrow>
   sum_list (map (\<lambda>d. of_bool (f d = x) :: int) ds) = of_bool (x \<in> set (map f ds))"
  by (induction ds) auto

lemma holders_of_one_visit:
  assumes "distinct (map doc_id ds)"
    and "case assigned_doctor_id v of None \<Rightarrow> True | Some x \<Rightarrow> x \<in> set (map doc_id ds)"
  shows "sum_list (map (\<lambda>d. of_bool (heldBy (doc_id d) v) :: int) ds) = of_bool (openAssigned v)"
proof (cases "assigned_doctor_id v")
  case None
  then show ?thesis by (simp add: heldBy_def openAssigned_def)
next
  case (Some x)
  show ?thesis
  proof (cases "visit_status v = ''seen''")
    case True
    then show ?thesis by (simp add: heldBy_def openAssigned_def)
  next
    case False
    with Some have h: "\<And>d. heldBy (doc_id d) v = (doc_id d = x)" by (auto simp: heldBy_def)
    have "sum_list (map (\<lambda>d. of_bool (heldBy (doc_id d) v) :: int) ds)
               = sum_list (map (\<lambda>d. of_bool (doc_id d = x) :: int) ds)" by (simp only: h)
    also have "\<dots> = of_bool (x \<in> set (map doc_id ds))" by (rule indicator_sum[OF assms(1)])
    also from assms(2) Some False have "\<dots> = of_bool (openAssigned v)"
      by (simp add: openAssigned_def)
    finally show ?thesis .
  qed
qed

lemma holders_sum:
  assumes "distinct (map doc_id ds)"
    and "list_all (\<lambda>v. case assigned_doctor_id v of
                       None \<Rightarrow> True | Some x \<Rightarrow> x \<in> set (map doc_id ds)) vs"
  shows "sum_list (map (\<lambda>d. int (length (filter (heldBy (doc_id d)) vs))) ds)
         = int (length (filter openAssigned vs))"
  using assms(2)
proof (induction vs)
  case Nil
  then show ?case by simp
next
  case (Cons v vs)
  have split: "\<And>d. int (length (filter (heldBy (doc_id d)) (v # vs)))
                 = of_bool (heldBy (doc_id d) v) + int (length (filter (heldBy (doc_id d)) vs))"
    by simp
  have "sum_list (map (\<lambda>d. int (length (filter (heldBy (doc_id d)) (v # vs)))) ds)
        = sum_list (map (\<lambda>d. of_bool (heldBy (doc_id d) v) :: int) ds)
          + sum_list (map (\<lambda>d. int (length (filter (heldBy (doc_id d)) vs))) ds)"
    by (simp only: split sum_list_addf)
  also from Cons have "\<dots> = of_bool (openAssigned v) + int (length (filter openAssigned vs))"
    by (simp add: holders_of_one_visit[OF assms(1)])
  also have "\<dots> = int (length (filter openAssigned (v # vs)))" by simp
  finally show ?case .
qed

lemma consistent_conservation:
  assumes "consistent s"
  shows "totalLoad s = openAssignedCount s"
proof -
  from assms have "\<forall>d\<in>set (doctors s). currentLoad d = caseload s (doc_id d)"
    by (simp add: consistent_def list_all_iff)
  then have "map currentLoad (doctors s) = map (\<lambda>d. caseload s (doc_id d)) (doctors s)"
    by (intro map_cong refl) blast
  then have "totalLoad s = sum_list (map (\<lambda>d. caseload s (doc_id d)) (doctors s))"
    by (simp only: totalLoad_def)
  also have "\<dots> = sum_list (map (\<lambda>d. int (length (filter (heldBy (doc_id d)) (visits s)))) (doctors s))"
    by (simp add: caseload_def)
  also from assms have "\<dots> = int (length (filter openAssigned (visits s)))"
    by (intro holders_sum) (simp_all add: consistent_def)
  finally show ?thesis by (simp add: openAssignedCount_def)
qed

text \<open>
  C5 (as the code has it). Take a store with no visits whose doctors have distinct,
  non-empty ids and load 0, and any sequence of calls in which triage is finalised only
  for a visit that has no doctor, a diagnosis is submitted only for a visit not yet
  completed, \<open>updateVisitStatus\<close> neither completes nor reopens a visit, and an added
  doctor's id is fresh. After it, the sum of all loads equals the number of visits that
  are assigned and not completed, and each doctor's load is the number of such visits
  assigned to that doctor. From such a state, an assignment adds exactly one to the
  chosen doctor's load and changes no other doctor, and the completion of an assigned,
  open visit finds the visit's doctor and takes exactly one from that doctor's load.
\<close>

theorem load_conservation:
  assumes "empty_clinic s0" and "valid_run s0 evs" and "s = run s0 evs"
  shows "totalLoad s = openAssignedCount s \<and>
         list_all (\<lambda>d. currentLoad d = caseload s (doc_id d)) (doctors s) \<and>
         (\<forall>visitId prio pre ai vi r.
             findIndex (\<lambda>v. visit_id v = visitId) (visits s) = Some vi \<longrightarrow>
             findBestDoctor (doctors s) (routedSpecialty pre ai) prio = Some r \<longrightarrow>
             doctors (apply_event s (FinalizeTriage visitId prio pre ai)) =
               (doctors s)[r := (doctors s ! r)\<lparr>currentLoad := currentLoad (doctors s ! r) + 1\<rparr>]) \<and>
         (\<forall>visitId vi x.
             findIndex (\<lambda>v. visit_id v = visitId) (visits s) = Some vi \<longrightarrow>
             assigned_doctor_id (visits s ! vi) = Some x \<longrightarrow>
             visit_status (visits s ! vi) \<noteq> ''seen'' \<longrightarrow>
             (\<exists>di. findIndex (\<lambda>d. doc_id d = x) (doctors s) = Some di \<and>
                   doctors (apply_event s (SubmitDiagnosis visitId)) =
                     (doctors s)[di := (doctors s ! di)
                                   \<lparr>currentLoad := currentLoad (doctors s ! di) - 1\<rparr>]))"
proof -
  from assms have c: "consistent s"
    by (simp add: run_consistent empty_clinic_consistent)
  have one: "totalLoad s = openAssignedCount s" using c by (rule consistent_conservation)
  have two: "list_all (\<lambda>d. currentLoad d = caseload s (doc_id d)) (doctors s)"
    using c by (simp add: consistent_def)
  have three: "doctors (apply_event s (FinalizeTriage visitId prio pre ai)) =
               (doctors s)[r := (doctors s ! r)\<lparr>currentLoad := currentLoad (doctors s ! r) + 1\<rparr>]"
    if "findIndex (\<lambda>v. visit_id v = visitId) (visits s) = Some vi"
      and "findBestDoctor (doctors s) (routedSpecialty pre ai) prio = Some r"
    for visitId prio pre ai vi r
    using that by (simp add: finalizeTriage_def orElse_def Let_def)
  have four: "\<exists>di. findIndex (\<lambda>d. doc_id d = x) (doctors s) = Some di \<and>
                   doctors (apply_event s (SubmitDiagnosis visitId)) =
                     (doctors s)[di := (doctors s ! di)
                                   \<lparr>currentLoad := currentLoad (doctors s ! di) - 1\<rparr>]"
    if vi: "findIndex (\<lambda>v. visit_id v = visitId) (visits s) = Some vi"
      and a: "assigned_doctor_id (visits s ! vi) = Some x"
      and st: "visit_status (visits s ! vi) \<noteq> ''seen''"
    for visitId vi x
  proof -
    from vi have len: "vi < length (visits s)" by (simp add: findIndex_Some)
    from consistent_complete[OF c len a st] obtain di where
      di: "findIndex (\<lambda>d. doc_id d = x) (doctors s) = Some di"
        "1 \<le> currentLoad (doctors s ! di)" "x \<noteq> []" by blast
    from di(2) have "max 0 (currentLoad (doctors s ! di) - 1) = currentLoad (doctors s ! di) - 1"
      by simp
    with vi a di have "doctors (apply_event s (SubmitDiagnosis visitId)) =
                     (doctors s)[di := (doctors s ! di)
                                   \<lparr>currentLoad := currentLoad (doctors s ! di) - 1\<rparr>]"
      by (simp add: submitDiagnosis_def orElse_def decrementLoad_def)
    with di(1) show ?thesis by blast
  qed
  from one two three four show ?thesis by blast
qed

theorem load_conservation_witness:
  "empty_clinic initial_store \<and> valid_run initial_store one_completed \<and>
   totalLoad (run initial_store one_completed) = 1 \<and>
   openAssignedCount (run initial_store one_completed) = 1"
proof -
  have a: "empty_clinic initial_store" by code_simp
  have b: "valid_run initial_store one_completed" by code_simp
  have c: "openAssignedCount (run initial_store one_completed) = 1" by code_simp
  from load_conservation[OF a b refl] c a b show ?thesis by simp
qed

text \<open>
  Without that discipline the sum of loads and the number of open assigned visits part.
  With two Neurology patients waiting for the same doctor: finalising triage again for
  the first visit leaves loads of 3 for 2 open visits; submitting the first visit's
  diagnosis twice leaves loads of 0 for 1 open visit.
\<close>

theorem load_conservation_fails_on_repeated_calls:
  "totalLoad (run initial_store assigned_twice) = 3 \<and>
   openAssignedCount (run initial_store assigned_twice) = 2 \<and>
   totalLoad (run initial_store completed_twice) = 0 \<and>
   openAssignedCount (run initial_store completed_twice) = 1"
  by code_simp

end
